theory Spec2Isabelle
  imports Main
begin

section \<open>Bytes, strings and Go integer arithmetic\<close>

text \<open>
  A Go \<^verbatim>\<open>string\<close> and a \<^verbatim>\<open>[]byte\<close> are sequences of 8-bit bytes; both are
  modelled as \<^typ>\<open>string\<close> (a list of \<^typ>\<open>char\<close>, and a \<^typ>\<open>char\<close> is one byte).
  The numeric value of a byte \<open>b\<close> is \<open>of_char b\<close>. Go's \<^verbatim>\<open>int\<close> is 64 bits wide; the
  values computed in \<^verbatim>\<open>json.go\<close> (digits of calendar fields) stay far inside that
  range, so they are modelled as \<^typ>\<open>int\<close>, with Go's truncating division and the
  conversion \<^verbatim>\<open>byte(x)\<close> written out.
\<close>

definition byte :: "int \<Rightarrow> char" where
  \<comment> \<open>Go's conversion \<^verbatim>\<open>byte(x)\<close>: the low 8 bits of \<open>x\<close>.\<close>
  "byte x = char_of x"

definition quo :: "int \<Rightarrow> int \<Rightarrow> int" where
  \<comment> \<open>Go's \<^verbatim>\<open>a / b\<close> on integers: the quotient truncated towards zero.\<close>
  "quo a b = sgn a * sgn b * (\<bar>a\<bar> div \<bar>b\<bar>)"

definition quote :: char where
  \<comment> \<open>the double quote character, byte 0x22\<close>
  "quote = CHR 0x22"

definition backslash :: char where
  "backslash = CHR 0x5C"

definition slice :: "string \<Rightarrow> nat \<Rightarrow> nat \<Rightarrow> string" where
  \<comment> \<open>Go's \<^verbatim>\<open>s[lo:hi]\<close> for \<open>lo \<le> hi \<le> len(s)\<close>\<close>
  "slice s lo hi = take (hi - lo) (drop lo s)"

subsection \<open>Standard-library number formatting\<close>

text \<open>
  \<^verbatim>\<open>strconv.AppendInt(dst, i, 10)\<close>, \<^verbatim>\<open>strconv.AppendUint(dst, i, 10)\<close> and
  \<^verbatim>\<open>strconv.AppendBool\<close> belong to Go's standard library; they are modelled by what
  they are documented to append: the minimal decimal text, with a leading minus sign for
  a negative number, and \<^verbatim>\<open>true\<close> or \<^verbatim>\<open>false\<close>.
\<close>

definition digit_char :: "nat \<Rightarrow> char" where
  \<comment> \<open>the character of a decimal digit\<close>
  "digit_char d = ''0123456789'' ! d"

fun decimal :: "nat \<Rightarrow> string" where
  "decimal n = (if n < 10 then [digit_char n]
                else decimal (n div 10) @ [digit_char (n mod 10)])"

declare decimal.simps [simp del]

definition AppendUint :: "nat \<Rightarrow> string" where
  "AppendUint i = decimal i"

definition AppendInt :: "int \<Rightarrow> string" where
  "AppendInt i = (if i < 0 then CHR ''-'' # decimal (nat (- i)) else decimal (nat i))"

definition AppendBool :: "bool \<Rightarrow> string" where
  "AppendBool b = (if b then ''true'' else ''false'')"

section \<open>Data model\<close>

text \<open>
  Modelled from the spec: the type \<^verbatim>\<open>Level\<close> and its five constants are declared
  outside \<^verbatim>\<open>json.go\<close>. The spec gives the severity level as a closed, totally
  ordered integer enumeration Debug < Info < Warn < Error < Fatal; \<open>level_rank\<close> is the
  integer behind each constant, and \<^verbatim>\<open>a < b\<close> on levels compares ranks.
\<close>

datatype Level = DebugLevel | InfoLevel | WarnLevel | ErrorLevel | FatalLevel

fun level_rank :: "Level \<Rightarrow> nat" where
  "level_rank DebugLevel = 0"
| "level_rank InfoLevel = 1"
| "level_rank WarnLevel = 2"
| "level_rank ErrorLevel = 3"
| "level_rank FatalLevel = 4"

text \<open>
  A \<^verbatim>\<open>time.Time\<close> is read by \<^verbatim>\<open>json.go\<close> only through its accessors, after
  \<^verbatim>\<open>now.UTC()\<close>; it is modelled by the values those accessors return for the UTC
  instant (so \<^verbatim>\<open>UTC()\<close> is the identity on the model).
\<close>

record time_Time =
  Year :: int
  Month :: int
  Day :: int
  Hour :: int
  Minute :: int
  Second :: int
  Nanosecond :: int
  Unix :: int

definition valid_time :: "time_Time \<Rightarrow> bool" where
  \<comment> \<open>the ranges Go documents for the accessors\<close>
  "valid_time t = (1 \<le> Month t \<and> Month t \<le> 12 \<and> 1 \<le> Day t \<and> Day t \<le> 31 \<and>
     0 \<le> Hour t \<and> Hour t \<le> 23 \<and> 0 \<le> Minute t \<and> Minute t \<le> 59 \<and>
     0 \<le> Second t \<and> Second t \<le> 59 \<and> 0 \<le> Nanosecond t \<and> Nanosecond t \<le> 999999999)"

type_synonym writer = nat
  \<comment> \<open>an \<^verbatim>\<open>io.Writer\<close>, named by a handle; its writes are recorded in the world\<close>

text \<open>
  The field \<^verbatim>\<open>Writer\<close> of a logger is an interface value, which may be nil:
  \<open>None\<close> is the nil interface, as in the zero value \<^verbatim>\<open>Logger{}\<close>. Taking the method
  value \<^verbatim>\<open>l.Writer.Write\<close> of a nil interface is a run-time panic.
\<close>

datatype panic = NilDereference

record Logger =
  Level :: Level
  Caller :: bool
  EscapeHTML :: bool
  TimeField :: string
  TimeFormat :: string
  Writer :: "writer option"

record Event =
  buf :: string
  fatal :: bool
  escapeHTML :: bool
  timeFormat :: string
  write' :: writer

text \<open>
  A \<^verbatim>\<open>*Event\<close> is an \<^typ>\<open>Event option\<close>: \<open>None\<close> is the nil pointer that
  \<^verbatim>\<open>WithLevel\<close> returns for a gated-out level. The field \<^verbatim>\<open>write\<close> of an event
  is a bound method of a writer that is not nil, so it is a handle.

  The collaborators outside the repository are parameters of the model: the
  general-purpose time formatter, the call-stack introspector, the float formatter, the
  duration printer and the JSON marshaler. A failing marshaler returns \<open>Inl\<close> of its
  error message.
\<close>

record ('f, 'v) ext =
  AppendFormat :: "time_Time \<Rightarrow> string \<Rightarrow> string"
  runtime_Caller :: "nat \<Rightarrow> (string \<times> int) option"
  runtime_Stack :: "bool \<Rightarrow> string"
  AppendFloat :: "'f \<Rightarrow> string"
  Duration_String :: "int \<Rightarrow> string"
  json_Marshal :: "'v \<Rightarrow> string + string"

text \<open>
  The world outside an event: the writes every sink has received, in order; the free
  list \<^verbatim>\<open>epool\<close>; and the exit status once \<^verbatim>\<open>os.Exit\<close> has been called.
\<close>

record world =
  sink :: "(writer \<times> string) list"
  epool :: "Event list"
  exited :: "int option"

definition new_Event :: Event where
  \<comment> \<open>\<^verbatim>\<open>new(Event)\<close>: the zero value\<close>
  "new_Event = \<lparr>buf = [], fatal = False, escapeHTML = False, timeFormat = [], write' = 0\<rparr>"

definition epool_Get :: "world \<Rightarrow> Event \<times> world" where
  "epool_Get w = (case epool w of [] \<Rightarrow> (new_Event, w) | e # es \<Rightarrow> (e, w\<lparr>epool := es\<rparr>))"

definition epool_Put :: "Event \<Rightarrow> world \<Rightarrow> world" where
  "epool_Put e w = w\<lparr>epool := e # epool w\<rparr>"

definition do_write :: "Event \<Rightarrow> string \<Rightarrow> world \<Rightarrow> world" where
  \<comment> \<open>\<^verbatim>\<open>e.write(p)\<close>: one call of the sink's Write\<close>
  "do_write e p w = w\<lparr>sink := sink w @ [(write' e, p)]\<rparr>"

section \<open>The encoder\<close>

subsection \<open>Keys and the fast timestamp formatter\<close>

definition append :: "Event \<Rightarrow> string \<Rightarrow> Event" where
  \<comment> \<open>\<^verbatim>\<open>e.buf = append(e.buf, s...)\<close>\<close>
  "append e s = e\<lparr>buf := buf e @ s\<rparr>"

definition key :: "Event \<Rightarrow> char \<Rightarrow> string \<Rightarrow> Event" where
  "key e b k =
    (let e = append e [b, quote];
         e = append e k;
         e = append e [quote, CHR '':'']
     in e)"

definition time_template :: string where
  "time_template = [quote] @ ''2006-01-02T15:04:05.999Z'' @ [quote]"

definition time :: "Event \<Rightarrow> time_Time \<Rightarrow> Event" where
  "time e now =
    (let n = length (buf e);
         bf = buf e @ time_template;
         a = Year now;
         b = quo a 10;
         bf = bf[n + 4 := byte (48 + a - 10 * b)];
         a = b;
         b = quo a 10;
         bf = bf[n + 3 := byte (48 + a - 10 * b)];
         a = b;
         b = quo a 10;
         bf = bf[n + 2 := byte (48 + a - 10 * b)];
         bf = bf[n + 1 := byte (48 + b)];
         a = Month now;
         b = quo a 10;
         bf = bf[n + 7 := byte (48 + a - 10 * b)];
         bf = bf[n + 6 := byte (48 + b)];
         a = Day now;
         b = quo a 10;
         bf = bf[n + 10 := byte (48 + a - 10 * b)];
         bf = bf[n + 9 := byte (48 + b)];
         a = Hour now;
         b = quo a 10;
         bf = bf[n + 13 := byte (48 + a - 10 * b)];
         bf = bf[n + 12 := byte (48 + b)];
         a = Minute now;
         b = quo a 10;
         bf = bf[n + 16 := byte (48 + a - 10 * b)];
         bf = bf[n + 15 := byte (48 + b)];
         a = Second now;
         b = quo a 10;
         bf = bf[n + 19 := byte (48 + a - 10 * b)];
         bf = bf[n + 18 := byte (48 + b)];
         a = quo (Nanosecond now) 1000000;
         b = quo a 10;
         bf = bf[n + 23 := byte (48 + a - 10 * b)];
         a = b;
         b = quo a 10;
         bf = bf[n + 22 := byte (48 + a - 10 * b)];
         bf = bf[n + 21 := byte (48 + b)]
     in e\<lparr>buf := bf\<rparr>)"

subsection \<open>UTF-8 decoding\<close>

text \<open>
  \<^verbatim>\<open>utf8.DecodeRuneInString\<close> belongs to Go's standard library
  (\<^verbatim>\<open>unicode/utf8\<close>). It is modelled after its documented behaviour: it returns the
  first rune of the string and the number of bytes of its encoding; \<open>(RuneError, 0)\<close> on
  the empty string and \<open>(RuneError, 1)\<close> when the encoding is invalid (a stray
  continuation byte, an overlong form, a surrogate, a value above U+10FFFF, or a
  truncated sequence). The definition follows the library's own steps: the first byte
  gives the length and the range of the second byte, each further byte must be a
  continuation byte, and the masks \<^verbatim>\<open>& 0x1F\<close>, \<^verbatim>\<open>& 0x3F\<close> and the shifts are written
  as \<open>mod\<close> and multiplication.
\<close>

definition RuneSelf :: nat where
  "RuneSelf = 0x80"

definition RuneError :: nat where
  "RuneError = 0xFFFD"

definition first_size :: "nat \<Rightarrow> nat" where
  \<comment> \<open>the table \<^verbatim>\<open>first\<close>: the length of the encoding a byte starts; 1 for ASCII, 0 for a
     byte that starts none\<close>
  "first_size b0 =
    (if b0 < 0x80 then 1
     else if b0 < 0xC2 then 0
     else if b0 < 0xE0 then 2
     else if b0 < 0xF0 then 3
     else if b0 < 0xF5 then 4
     else 0)"

definition accept_lo :: "nat \<Rightarrow> nat" where
  \<comment> \<open>the table \<^verbatim>\<open>acceptRanges\<close>: the least second byte after the first byte \<open>b0\<close>\<close>
  "accept_lo b0 = (if b0 = 0xE0 then 0xA0 else if b0 = 0xF0 then 0x90 else 0x80)"

definition accept_hi :: "nat \<Rightarrow> nat" where
  "accept_hi b0 = (if b0 = 0xED then 0x9F else if b0 = 0xF4 then 0x8F else 0xBF)"

definition DecodeRuneInString :: "string \<Rightarrow> nat \<times> nat" where
  "DecodeRuneInString s =
    (let n = length s in
     if n < 1 then (RuneError, 0)
     else
       (let s0 = (of_char (s ! 0) :: nat);
            sz = first_size s0
        in if sz = 1 then (s0, 1)
           else if sz = 0 then (RuneError, 1)
           else if n < sz then (RuneError, 1)
           else
             (let s1 = (of_char (s ! 1) :: nat)
              in if s1 < accept_lo s0 \<or> accept_hi s0 < s1 then (RuneError, 1)
                 else if sz \<le> 2 then ((s0 mod 0x20) * 0x40 + s1 mod 0x40, 2)
                 else
                   (let s2 = (of_char (s ! 2) :: nat)
                    in if s2 < 0x80 \<or> 0xBF < s2 then (RuneError, 1)
                       else if sz \<le> 3 then
                         ((s0 mod 0x10) * 0x1000 + (s1 mod 0x40) * 0x40 + s2 mod 0x40, 3)
                       else
                         (let s3 = (of_char (s ! 3) :: nat)
                          in if s3 < 0x80 \<or> 0xBF < s3 then (RuneError, 1)
                             else ((s0 mod 0x08) * 0x40000 + (s1 mod 0x40) * 0x1000
                                   + (s2 mod 0x40) * 0x40 + s3 mod 0x40, 4))))))"

subsection \<open>The string escaper\<close>

text \<open>
  \<^verbatim>\<open>safeSet\<close> and \<^verbatim>\<open>htmlSafeSet\<close> are the two tables of \<^verbatim>\<open>json.go\<close>, indexed by
  an ASCII byte: each lists the bytes whose entry is \<^verbatim>\<open>true\<close>, in the order of the
  source (an entry the table leaves out is \<^verbatim>\<open>false\<close>).
\<close>

definition hex :: string where
  "hex = ''0123456789abcdef''"

definition safeSet :: "char \<Rightarrow> bool" where
  "safeSet b = (b \<in> set ('' !#$%&'' @ [CHR 0x27] @ ''()*+,-./0123456789:;<=>?@ABCDEFGHIJKLMNOPQRSTUVWXYZ[]^_''
      @ [CHR 0x60] @ ''abcdefghijklmnopqrstuvwxyz{|}~'' @ [CHR 0x7F]))"

definition htmlSafeSet :: "char \<Rightarrow> bool" where
  "htmlSafeSet b = (b \<in> set ('' !#$%'' @ [CHR 0x27] @ ''()*+,-./0123456789:;=?@ABCDEFGHIJKLMNOPQRSTUVWXYZ[]^_''
      @ [CHR 0x60] @ ''abcdefghijklmnopqrstuvwxyz{|}~'' @ [CHR 0x7F]))"

definition flush :: "string \<Rightarrow> nat \<Rightarrow> nat \<Rightarrow> string \<Rightarrow> string" where
  \<comment> \<open>\<^verbatim>\<open>if start < i { e.buf = append(e.buf, value[start:i]...) }\<close>, which the loop
     runs before each escape it writes\<close>
  "flush val start i bf = (if start < i then bf @ slice val start i else bf)"

definition escape_ascii :: "char \<Rightarrow> string" where
  \<comment> \<open>what the \<^verbatim>\<open>switch b\<close> of the loop appends for an ASCII byte that is not copied\<close>
  "escape_ascii b =
    (if b = backslash \<or> b = quote then [backslash, b]
     else if b = CHR 0x0A then [backslash, CHR ''n'']
     else if b = CHR 0x0D then [backslash, CHR ''r'']
     else if b = CHR 0x09 then [backslash, CHR ''t'']
     else [backslash, CHR ''u'', CHR ''0'', CHR ''0'',
           hex ! (of_char b div 16), hex ! (of_char b mod 16)])"

text \<open>
  The loop of \<^verbatim>\<open>Event.string\<close>, with its variables \<^verbatim>\<open>start\<close>, \<^verbatim>\<open>i\<close> and the
  buffer as arguments; it returns \<^verbatim>\<open>start\<close> and the buffer when \<^verbatim>\<open>i\<close> reaches the
  end. It terminates because a decoded rune of a non-empty string has a positive size.
\<close>

lemma DecodeRune_size_pos: "s \<noteq> [] \<Longrightarrow> 0 < snd (DecodeRuneInString s)"
  by (simp add: DecodeRuneInString_def Let_def)

lemma DecodeRune_size_drop:
  "(c, n) = DecodeRuneInString (drop i val) \<Longrightarrow> i < length val \<Longrightarrow> 0 < n"
  using DecodeRune_size_pos [of "drop i val"] by (cases "DecodeRuneInString (drop i val)") auto

function string_loop :: "string \<Rightarrow> bool \<Rightarrow> nat \<Rightarrow> nat \<Rightarrow> string \<Rightarrow> nat \<times> string" where
  "string_loop val escHTML start i bf =
    (if i < length val then
       (let b = val ! i in
        if of_char b < RuneSelf then
          (if htmlSafeSet b \<or> (\<not> escHTML \<and> safeSet b) then
             string_loop val escHTML start (i + 1) bf
           else
             (let bf = flush val start i bf;
                  bf = bf @ escape_ascii b
              in string_loop val escHTML (i + 1) (i + 1) bf))
        else
          (let (c, size) = DecodeRuneInString (drop i val) in
           if c = RuneError \<and> size = 1 then
             (let bf = flush val start i bf;
                  bf = bf @ [backslash, CHR ''u'', CHR ''f'', CHR ''f'', CHR ''f'', CHR ''d'']
              in string_loop val escHTML (i + size) (i + size) bf)
           else if c = 0x2028 \<or> c = 0x2029 then
             (let bf = flush val start i bf;
                  bf = bf @ [backslash, CHR ''u'', CHR ''2'', CHR ''0'', CHR ''2'', hex ! (c mod 16)]
              in string_loop val escHTML (i + size) (i + size) bf)
           else string_loop val escHTML start (i + size) bf))
     else (start, bf))"
  by pat_completeness auto
termination
  by (relation "measure (\<lambda>(val, escHTML, start, i, bf). length val - i)")
     (auto dest: DecodeRune_size_drop)

declare string_loop.simps [simp del]

definition string :: "Event \<Rightarrow> string \<Rightarrow> bool \<Rightarrow> Event" where
  "string e val escHTML =
    (let bf = buf e @ [quote];
         (start, bf) = string_loop val escHTML 0 0 bf;
         bf = (if start < length val then bf @ drop start val else bf)
     in e\<lparr>buf := bf @ [quote]\<rparr>)"

subsection \<open>Call-site capture and stack dumps\<close>

definition after_last_slash :: "string \<Rightarrow> string" where
  \<comment> \<open>\<^verbatim>\<open>if i := strings.LastIndex(file, "/"); i >= 0 { file = file[i+1:] }\<close>\<close>
  "after_last_slash file =
    (if CHR ''/'' \<in> set file then rev (takeWhile (\<lambda>c. c \<noteq> CHR ''/'') (rev file)) else file)"

definition caller :: "('f, 'v) ext \<Rightarrow> Event \<Rightarrow> nat \<Rightarrow> Event" where
  \<open>caller x e skip =
    (let (file, line) =
           (case runtime_Caller x (2 + skip) of
              None \<Rightarrow> (''???'', 1)
            | Some (file, line) \<Rightarrow> (after_last_slash file, line));
         line = (if line < 0 then 0 else line);
         e = append e '',"caller":"'';
         e = append e file;
         e = append e '':'';
         e = append e (AppendInt line);
         e = append e [quote]
     in e)\<close>

fun stacks_loop :: "string \<Rightarrow> nat \<Rightarrow> nat \<Rightarrow> string \<Rightarrow> string" where
  "stacks_loop full n 0 trace = trace"
| "stacks_loop full n (Suc k) trace =
    (let trace = take n full;
         nbytes = length trace
     in if nbytes < n then take nbytes trace else stacks_loop full (n * 2) k trace)"

definition stacks :: "('f, 'v) ext \<Rightarrow> bool \<Rightarrow> string" where
  "stacks x all = stacks_loop (runtime_Stack x all) (if all then 100000 else 10000) 5 []"

subsection \<open>The level gate and the header\<close>

text \<open>
  \<^verbatim>\<open>WithLevel\<close> returns \<open>Inr\<close> of the event and the world, or \<open>Inl\<close> of the panic
  and the world at the panic: once the gate is passed and an event is taken from the
  pool, \<^verbatim>\<open>e.write = l.Writer.Write\<close> panics for a logger whose writer is nil, before
  the clock is read and before anything is appended.
\<close>

definition WithLevel ::
  "('f, 'v) ext \<Rightarrow> Logger \<Rightarrow> Level \<Rightarrow> time_Time \<Rightarrow> world
     \<Rightarrow> (panic \<times> world) + (Event option \<times> world)" where
  \<open>WithLevel x l level now w =
    (if level_rank level < level_rank (Level l) then Inr (None, w)
     else
       (let (e, w) = epool_Get w;
            e = e\<lparr>buf := take 0 (buf e)\<rparr>;
            e = e\<lparr>fatal := (level = FatalLevel)\<rparr>;
            e = e\<lparr>escapeHTML := EscapeHTML l\<rparr>;
            e = e\<lparr>timeFormat := TimeFormat l\<rparr>
        in case Writer l of
             None \<Rightarrow> Inl (NilDereference, w)
           | Some wr \<Rightarrow>
               (let e = e\<lparr>write' := wr\<rparr>;
                    e = (if TimeField l = [] then append e ''{"time":''
                         else key e (CHR ''{'') (TimeField l));
                    e = (if timeFormat e = [] then time e now
                         else (let e = append e [quote];
                                   e = append e (AppendFormat x now (timeFormat e));
                                   e = append e [quote]
                               in e));
                    e = (case level of
                           DebugLevel \<Rightarrow> append e '',"level":"debug"''
                         | InfoLevel \<Rightarrow> append e '',"level":"info"''
                         | WarnLevel \<Rightarrow> append e '',"level":"warn"''
                         | ErrorLevel \<Rightarrow> append e '',"level":"error"''
                         | FatalLevel \<Rightarrow> append e '',"level":"fatal"'');
                    e = (if Caller l then caller x e 1 else e)
                in Inr (Some e, w))))\<close>

subsection \<open>Field-append operations\<close>

text \<open>
  Every method of \<^verbatim>\<open>*Event\<close> starts with the nil guard and returns its receiver.
  The loop \<^verbatim>\<open>for i, a := range xs { if i != 0 { append ',' }; body }\<close> of the array
  variants is \<open>range_loop\<close>.
\<close>

fun range_loop :: "(Event \<Rightarrow> 'a \<Rightarrow> Event) \<Rightarrow> nat \<Rightarrow> 'a list \<Rightarrow> Event \<Rightarrow> Event" where
  "range_loop body i [] e = e"
| "range_loop body i (a # as) e =
    range_loop body (i + 1) as (body (if i \<noteq> 0 then append e '','' else e) a)"

definition Time :: "('f, 'v) ext \<Rightarrow> Event option \<Rightarrow> string \<Rightarrow> time_Time \<Rightarrow> Event option" where
  "Time x e k t =
    (case e of None \<Rightarrow> None
     | Some e \<Rightarrow>
        (let e = key e (CHR '','') k;
             e = (if timeFormat e \<noteq> [] then
                    (let e = append e [quote];
                         e = append e (AppendFormat x t (timeFormat e));
                         e = append e [quote]
                     in e)
                  else time e t)
         in Some e))"

definition Timestamp :: "Event option \<Rightarrow> time_Time \<Rightarrow> Event option" where
  \<comment> \<open>the second argument is what \<^verbatim>\<open>timeNow()\<close> returns\<close>
  "Timestamp e now =
    (case e of None \<Rightarrow> None
     | Some e \<Rightarrow>
        (let e = key e (CHR '','') ''timestamp'';
             e = append e (AppendInt (Unix now))
         in Some e))"

definition Bool :: "Event option \<Rightarrow> string \<Rightarrow> bool \<Rightarrow> Event option" where
  "Bool e k b =
    (case e of None \<Rightarrow> None
     | Some e \<Rightarrow>
        (let e = key e (CHR '','') k;
             e = append e (AppendBool b)
         in Some e))"

definition Bools :: "Event option \<Rightarrow> string \<Rightarrow> bool list \<Rightarrow> Event option" where
  "Bools e k b =
    (case e of None \<Rightarrow> None
     | Some e \<Rightarrow>
        (let e = key e (CHR '','') k;
             e = append e ''['';
             e = range_loop (\<lambda>e a. append e (AppendBool a)) 0 b e;
             e = append e '']''
         in Some e))"

definition Dur :: "('f, 'v) ext \<Rightarrow> Event option \<Rightarrow> string \<Rightarrow> int \<Rightarrow> Event option" where
  "Dur x e k d =
    (case e of None \<Rightarrow> None
     | Some e \<Rightarrow>
        (let e = key e (CHR '','') k;
             e = append e [quote];
             e = append e (Duration_String x d);
             e = append e [quote]
         in Some e))"

definition Durs :: "('f, 'v) ext \<Rightarrow> Event option \<Rightarrow> string \<Rightarrow> int list \<Rightarrow> Event option" where
  "Durs x e k d =
    (case e of None \<Rightarrow> None
     | Some e \<Rightarrow>
        (let e = key e (CHR '','') k;
             e = append e ''['';
             e = range_loop (\<lambda>e a.
                   (let e = append e [quote];
                        e = append e (Duration_String x a);
                        e = append e [quote]
                    in e)) 0 d e;
             e = append e '']''
         in Some e))"

definition Err :: "Event option \<Rightarrow> string option \<Rightarrow> Event option" where
  \<comment> \<open>an \<^verbatim>\<open>error\<close> is nil (\<open>None\<close>) or has the message \<^verbatim>\<open>err.Error()\<close>\<close>
  \<open>Err e err =
    (case e of None \<Rightarrow> None
     | Some e \<Rightarrow>
        (case err of
           None \<Rightarrow> Some (append e '',"error":null'')
         | Some msg \<Rightarrow>
            (let e = append e '',"error":'';
                 e = string e msg (escapeHTML e)
             in Some e)))\<close>

definition Errs :: "Event option \<Rightarrow> string \<Rightarrow> string option list \<Rightarrow> Event option" where
  "Errs e k errs =
    (case e of None \<Rightarrow> None
     | Some e \<Rightarrow>
        (let e = key e (CHR '','') k;
             e = append e ''['';
             e = range_loop (\<lambda>e err.
                   (case err of
                      None \<Rightarrow> append e ''null''
                    | Some msg \<Rightarrow> string e msg (escapeHTML e))) 0 errs e;
             e = append e '']''
         in Some e))"

definition Float64 :: "('f, 'v) ext \<Rightarrow> Event option \<Rightarrow> string \<Rightarrow> 'f \<Rightarrow> Event option" where
  "Float64 x e k f =
    (case e of None \<Rightarrow> None
     | Some e \<Rightarrow>
        (let e = key e (CHR '','') k;
             e = append e (AppendFloat x f)
         in Some e))"

definition Floats64 :: "('f, 'v) ext \<Rightarrow> Event option \<Rightarrow> string \<Rightarrow> 'f list \<Rightarrow> Event option" where
  "Floats64 x e k f =
    (case e of None \<Rightarrow> None
     | Some e \<Rightarrow>
        (let e = key e (CHR '','') k;
             e = append e ''['';
             e = range_loop (\<lambda>e a. append e (AppendFloat x a)) 0 f e;
             e = append e '']''
         in Some e))"

definition Floats32 :: "('f, 'v) ext \<Rightarrow> Event option \<Rightarrow> string \<Rightarrow> 'f list \<Rightarrow> Event option" where
  \<comment> \<open>a \<^verbatim>\<open>float32\<close> is given by the \<^verbatim>\<open>float64\<close> it converts to (the conversion is exact)\<close>
  "Floats32 x e k f =
    (case e of None \<Rightarrow> None
     | Some e \<Rightarrow>
        (let e = key e (CHR '','') k;
             e = append e ''['';
             e = range_loop (\<lambda>e a. append e (AppendFloat x a)) 0 f e;
             e = append e '']''
         in Some e))"

definition Int64 :: "Event option \<Rightarrow> string \<Rightarrow> int \<Rightarrow> Event option" where
  "Int64 e k i =
    (case e of None \<Rightarrow> None
     | Some e \<Rightarrow>
        (let e = key e (CHR '','') k;
             e = append e (AppendInt i)
         in Some e))"

definition Uint64 :: "Event option \<Rightarrow> string \<Rightarrow> nat \<Rightarrow> Event option" where
  "Uint64 e k i =
    (case e of None \<Rightarrow> None
     | Some e \<Rightarrow>
        (let e = key e (CHR '','') k;
             e = append e (AppendUint i)
         in Some e))"

definition Float32 :: "('f, 'v) ext \<Rightarrow> Event option \<Rightarrow> string \<Rightarrow> 'f \<Rightarrow> Event option" where
  "Float32 x e k f = Float64 x e k f"

definition Int' :: "Event option \<Rightarrow> string \<Rightarrow> int \<Rightarrow> Event option" where
  \<comment> \<open>\<^verbatim>\<open>Event.Int\<close>; the widening conversions to \<^verbatim>\<open>int64\<close> and \<^verbatim>\<open>uint64\<close> keep the value\<close>
  "Int' e k i = Int64 e k i"

definition Int32 :: "Event option \<Rightarrow> string \<Rightarrow> int \<Rightarrow> Event option" where
  "Int32 e k i = Int64 e k i"

definition Int16 :: "Event option \<Rightarrow> string \<Rightarrow> int \<Rightarrow> Event option" where
  "Int16 e k i = Int64 e k i"

definition Int8 :: "Event option \<Rightarrow> string \<Rightarrow> int \<Rightarrow> Event option" where
  "Int8 e k i = Int64 e k i"

definition Uint32 :: "Event option \<Rightarrow> string \<Rightarrow> nat \<Rightarrow> Event option" where
  "Uint32 e k i = Uint64 e k i"

definition Uint16 :: "Event option \<Rightarrow> string \<Rightarrow> nat \<Rightarrow> Event option" where
  "Uint16 e k i = Uint64 e k i"

definition Uint8 :: "Event option \<Rightarrow> string \<Rightarrow> nat \<Rightarrow> Event option" where
  "Uint8 e k i = Uint64 e k i"

definition RawJSON :: "Event option \<Rightarrow> string \<Rightarrow> string \<Rightarrow> Event option" where
  "RawJSON e k b =
    (case e of None \<Rightarrow> None
     | Some e \<Rightarrow>
        (let e = key e (CHR '','') k;
             e = append e b
         in Some e))"

definition Str :: "Event option \<Rightarrow> string \<Rightarrow> string \<Rightarrow> Event option" where
  "Str e k val =
    (case e of None \<Rightarrow> None
     | Some e \<Rightarrow>
        (let e = key e (CHR '','') k;
             e = string e val (escapeHTML e)
         in Some e))"

definition Strs :: "Event option \<Rightarrow> string \<Rightarrow> string list \<Rightarrow> Event option" where
  "Strs e k vals =
    (case e of None \<Rightarrow> None
     | Some e \<Rightarrow>
        (let e = key e (CHR '','') k;
             e = append e ''['';
             e = range_loop (\<lambda>e val. string e val (escapeHTML e)) 0 vals e;
             e = append e '']''
         in Some e))"

definition Bytes :: "Event option \<Rightarrow> string \<Rightarrow> string \<Rightarrow> Event option" where
  "Bytes e k val =
    (case e of None \<Rightarrow> None
     | Some e \<Rightarrow>
        (let e = key e (CHR '','') k;
             e = string e val (escapeHTML e)
         in Some e))"

definition Interface :: "('f, 'v) ext \<Rightarrow> Event option \<Rightarrow> string \<Rightarrow> 'v \<Rightarrow> Event option" where
  "Interface x e k i =
    (case e of None \<Rightarrow> None
     | Some e \<Rightarrow>
        (let e = key e (CHR '','') k;
             e = (case json_Marshal x i of
                    Inl err \<Rightarrow> string e (''marshaling error: '' @ err) (escapeHTML e)
                  | Inr marshaled \<Rightarrow> string e marshaled (escapeHTML e))
         in Some e))"

definition Caller' :: "('f, 'v) ext \<Rightarrow> Event option \<Rightarrow> Event option" where
  \<comment> \<open>\<^verbatim>\<open>Event.Caller\<close>\<close>
  "Caller' x e =
    (case e of None \<Rightarrow> None
     | Some e \<Rightarrow> Some (caller x e 0))"

subsection \<open>Terminal calls\<close>

text \<open>
  \<^verbatim>\<open>os.Exit(255)\<close> ends the process: the world records the status, and the
  \<^verbatim>\<open>epool.Put\<close> after it is never reached.
\<close>

definition Send :: "('f, 'v) ext \<Rightarrow> Event option \<Rightarrow> world \<Rightarrow> world" where
  "Send x e w =
    (case e of None \<Rightarrow> w
     | Some e \<Rightarrow>
        (let e = append e [CHR ''}'', CHR 0x0A];
             w = do_write e (buf e) w
         in if fatal e then
              (let w = do_write e (stacks x False) w;
                   w = do_write e (stacks x True) w
               in w\<lparr>exited := Some 255\<rparr>)
            else epool_Put e w))"

definition Msg :: "('f, 'v) ext \<Rightarrow> Event option \<Rightarrow> string \<Rightarrow> world \<Rightarrow> world" where
  \<open>Msg x e msg w =
    (case e of None \<Rightarrow> w
     | Some e \<Rightarrow>
        (let e = append e '',"message":'';
             e = string e msg (escapeHTML e);
             e = append e [CHR ''}'', CHR 0x0A];
             w = do_write e (buf e) w
         in if fatal e then
              (let w = do_write e (stacks x False) w;
                   w = do_write e (stacks x True) w
               in w\<lparr>exited := Some 255\<rparr>)
            else epool_Put e w))\<close>

subsection \<open>Sequences of field-append calls\<close>

text \<open>
  One constructor for each field-append method, holding the call's arguments;
  \<open>call\<close> runs one call and \<open>calls\<close> a chain of them, in order.
\<close>

datatype ('f, 'v) field =
    TimeF string time_Time
  | TimestampF time_Time
  | BoolF string bool
  | BoolsF string "bool list"
  | DurF string int
  | DursF string "int list"
  | ErrF "string option"
  | ErrsF string "string option list"
  | Float64F string 'f
  | Floats64F string "'f list"
  | Floats32F string "'f list"
  | Int64F string int
  | Uint64F string nat
  | Float32F string 'f
  | IntF string int
  | Int32F string int
  | Int16F string int
  | Int8F string int
  | Uint32F string nat
  | Uint16F string nat
  | Uint8F string nat
  | RawJSONF string string
  | StrF string string
  | StrsF string "string list"
  | BytesF string string
  | InterfaceF string 'v
  | CallerF

fun call :: "('f, 'v) ext \<Rightarrow> Event option \<Rightarrow> ('f, 'v) field \<Rightarrow> Event option" where
  "call x e (TimeF k t) = Time x e k t"
| "call x e (TimestampF now) = Timestamp e now"
| "call x e (BoolF k b) = Bool e k b"
| "call x e (BoolsF k b) = Bools e k b"
| "call x e (DurF k d) = Dur x e k d"
| "call x e (DursF k d) = Durs x e k d"
| "call x e (ErrF err) = Err e err"
| "call x e (ErrsF k errs) = Errs e k errs"
| "call x e (Float64F k f) = Float64 x e k f"
| "call x e (Floats64F k f) = Floats64 x e k f"
| "call x e (Floats32F k f) = Floats32 x e k f"
| "call x e (Int64F k i) = Int64 e k i"
| "call x e (Uint64F k i) = Uint64 e k i"
| "call x e (Float32F k f) = Float32 x e k f"
| "call x e (IntF k i) = Int' e k i"
| "call x e (Int32F k i) = Int32 e k i"
| "call x e (Int16F k i) = Int16 e k i"
| "call x e (Int8F k i) = Int8 e k i"
| "call x e (Uint32F k i) = Uint32 e k i"
| "call x e (Uint16F k i) = Uint16 e k i"
| "call x e (Uint8F k i) = Uint8 e k i"
| "call x e (RawJSONF k b) = RawJSON e k b"
| "call x e (StrF k val) = Str e k val"
| "call x e (StrsF k vals) = Strs e k vals"
| "call x e (BytesF k val) = Bytes e k val"
| "call x e (InterfaceF k i) = Interface x e k i"
| "call x e CallerF = Caller' x e"

definition calls :: "('f, 'v) ext \<Rightarrow> Event option \<Rightarrow> ('f, 'v) field list \<Rightarrow> Event option" where
  "calls x e fs = foldl (call x) e fs"

subsection \<open>The general-purpose time formatter, for two layouts\<close>

text \<open>
  The reference the fast formatter is compared with: Go's \<^verbatim>\<open>Time.AppendFormat\<close> as its
  documentation describes it, for the layouts \<^verbatim>\<open>2006-01-02T15:04:05.999Z\<close> and
  \<^verbatim>\<open>2006-01-02T15:04:05.000Z\<close>. The year is written with at least four digits and the
  month, day, hour, minute and second with at least two, zero-padded. A fraction
  \<^verbatim>\<open>.000\<close> prints three digits of the nanoseconds; a fraction \<^verbatim>\<open>.999\<close> prints
  them with trailing zeros removed, and nothing at all (not even the point) when all
  three are zero. \<^verbatim>\<open>T\<close> and \<^verbatim>\<open>Z\<close> stand for themselves.
\<close>

definition pad_zero :: "nat \<Rightarrow> string \<Rightarrow> string" where
  "pad_zero width s = replicate (width - length s) (CHR ''0'') @ s"

definition time_appendInt :: "int \<Rightarrow> nat \<Rightarrow> string" where
  "time_appendInt x width =
    (if x < 0 then CHR ''-'' # pad_zero width (decimal (nat (- x)))
     else pad_zero width (decimal (nat x)))"

definition formatNano :: "int \<Rightarrow> nat \<Rightarrow> bool \<Rightarrow> string" where
  "formatNano nanosec n trim =
    (let digits = take n (pad_zero 9 (decimal (nat nanosec)));
         digits = (if trim then rev (dropWhile (\<lambda>c. c = CHR ''0'') (rev digits)) else digits)
     in if trim \<and> digits = [] then [] else CHR ''.'' # digits)"

definition general_format :: "bool \<Rightarrow> time_Time \<Rightarrow> string" where
  \<comment> \<open>\<open>trim\<close>: the layout's fraction is \<^verbatim>\<open>.999\<close>; otherwise it is \<^verbatim>\<open>.000\<close>\<close>
  "general_format trim t =
    time_appendInt (Year t) 4 @ ''-'' @ time_appendInt (Month t) 2 @ ''-''
    @ time_appendInt (Day t) 2 @ ''T'' @ time_appendInt (Hour t) 2 @ '':''
    @ time_appendInt (Minute t) 2 @ '':'' @ time_appendInt (Second t) 2
    @ formatNano (Nanosecond t) 3 trim @ ''Z''"


section \<open>The fast timestamp formatter\<close>

lemma time_closed:
  "buf (time e now) = buf e @
     [quote,
      byte (48 + quo (quo (quo (Year now) 10) 10) 10),
      byte (48 + quo (quo (Year now) 10) 10 - 10 * quo (quo (quo (Year now) 10) 10) 10),
      byte (48 + quo (Year now) 10 - 10 * quo (quo (Year now) 10) 10),
      byte (48 + Year now - 10 * quo (Year now) 10),
      CHR ''-'',
      byte (48 + quo (Month now) 10),
      byte (48 + Month now - 10 * quo (Month now) 10),
      CHR ''-'',
      byte (48 + quo (Day now) 10),
      byte (48 + Day now - 10 * quo (Day now) 10),
      CHR ''T'',
      byte (48 + quo (Hour now) 10),
      byte (48 + Hour now - 10 * quo (Hour now) 10),
      CHR '':'',
      byte (48 + quo (Minute now) 10),
      byte (48 + Minute now - 10 * quo (Minute now) 10),
      CHR '':'',
      byte (48 + quo (Second now) 10),
      byte (48 + Second now - 10 * quo (Second now) 10),
      CHR ''.'',
      byte (48 + quo (quo (quo (Nanosecond now) 1000000) 10) 10),
      byte (48 + quo (quo (Nanosecond now) 1000000) 10
            - 10 * quo (quo (quo (Nanosecond now) 1000000) 10) 10),
      byte (48 + quo (Nanosecond now) 1000000 - 10 * quo (quo (Nanosecond now) 1000000) 10),
      CHR ''Z'',
      quote]"
  by (simp add: time_def time_template_def Let_def list_update_append)

lemma quo_nonneg: "0 \<le> a \<Longrightarrow> 0 < b \<Longrightarrow> quo a b = a div b"
  by (auto simp: quo_def sgn_if)

lemma byte_digit: "0 \<le> d \<Longrightarrow> d \<le> 9 \<Longrightarrow> byte (48 + d) = digit_char (nat d)"
proof -
  assume "0 \<le> d" "d \<le> 9"
  then have "d = 0 \<or> d = 1 \<or> d = 2 \<or> d = 3 \<or> d = 4 \<or> d = 5 \<or> d = 6 \<or> d = 7 \<or> d = 8 \<or> d = 9"
    by arith
  then show ?thesis
    by (elim disjE) (simp_all add: byte_def digit_char_def char_of_def)
qed

lemma byte_last_digit:
  "0 \<le> a \<Longrightarrow> byte (48 + a - 10 * (a div 10)) = digit_char (nat a mod 10)"
proof -
  assume a: "0 \<le> a"
  have e: "48 + a - 10 * (a div 10) = 48 + a mod 10"
    by (simp add: minus_mult_div_eq_mod)
  have n: "nat (a mod 10) = nat a mod 10"
    using a by (simp add: nat_mod_distrib)
  have "byte (48 + a mod 10) = digit_char (nat (a mod 10))"
    by (rule byte_digit) simp_all
  then show ?thesis
    by (simp only: e n)
qed

definition two_digits :: "nat \<Rightarrow> string" where
  "two_digits n = [digit_char (n div 10), digit_char (n mod 10)]"

lemma two_digit_bytes:
  assumes "0 \<le> a" "a \<le> 99"
  shows "byte (48 + quo a 10) = digit_char (nat a div 10)"
    and "byte (48 + a - 10 * quo a 10) = digit_char (nat a mod 10)"
proof -
  have "nat (a div 10) = nat a div 10" using assms by (simp add: nat_div_distrib)
  moreover have "a div 10 \<le> 9" "0 \<le> a div 10" using assms by simp_all
  ultimately show "byte (48 + quo a 10) = digit_char (nat a div 10)"
    using assms byte_digit [of "a div 10"] by (simp add: quo_nonneg)
  show "byte (48 + a - 10 * quo a 10) = digit_char (nat a mod 10)"
    using assms byte_last_digit [of a] by (simp add: quo_nonneg)
qed

lemma year_digit_bytes:
  assumes "0 \<le> y" "y \<le> 9999"
  shows "byte (48 + quo (quo (quo y 10) 10) 10) = digit_char (nat y div 1000)"
    and "byte (48 + quo (quo y 10) 10 - 10 * quo (quo (quo y 10) 10) 10)
         = digit_char (nat y div 100 mod 10)"
    and "byte (48 + quo y 10 - 10 * quo (quo y 10) 10) = digit_char (nat y div 10 mod 10)"
    and "byte (48 + y - 10 * quo y 10) = digit_char (nat y mod 10)"
proof -
  have q1: "quo y 10 = y div 10" using assms by (simp add: quo_nonneg)
  have q2: "quo (y div 10) 10 = y div 100" using assms by (simp add: quo_nonneg)
  have q3: "quo (y div 100) 10 = y div 1000" using assms by (simp add: quo_nonneg)
  have n1: "nat (y div 10) = nat y div 10" using assms by (simp add: nat_div_distrib)
  have n2: "nat (y div 100) = nat y div 100" using assms by (simp add: nat_div_distrib)
  have n3: "nat (y div 1000) = nat y div 1000" using assms by (simp add: nat_div_distrib)
  have "y div 1000 \<le> 9" "0 \<le> y div 1000" using assms by simp_all
  then show "byte (48 + quo (quo (quo y 10) 10) 10) = digit_char (nat y div 1000)"
    using byte_digit [of "y div 1000"] by (simp add: q1 q2 q3 n3)
  have d: "y div 100 div 10 = y div 1000" by simp
  have "0 \<le> y div 100" using assms by simp
  from byte_last_digit [OF this]
  show "byte (48 + quo (quo y 10) 10 - 10 * quo (quo (quo y 10) 10) 10)
         = digit_char (nat y div 100 mod 10)"
    by (simp only: q1 q2 q3 n2 d)
  have d': "y div 10 div 10 = y div 100" by simp
  have "0 \<le> y div 10" using assms by simp
  from byte_last_digit [OF this]
  show "byte (48 + quo y 10 - 10 * quo (quo y 10) 10) = digit_char (nat y div 10 mod 10)"
    by (simp only: q1 q2 n1 d')
  show "byte (48 + y - 10 * quo y 10) = digit_char (nat y mod 10)"
    using byte_last_digit [OF assms(1)] by (simp add: q1)
qed

lemma milli_digit_bytes:
  assumes "0 \<le> ns" "ns \<le> 999999999"
  shows "byte (48 + quo (quo (quo ns 1000000) 10) 10) = digit_char (nat ns div 100000000)"
    and "byte (48 + quo (quo ns 1000000) 10 - 10 * quo (quo (quo ns 1000000) 10) 10)
         = digit_char (nat ns div 10000000 mod 10)"
    and "byte (48 + quo ns 1000000 - 10 * quo (quo ns 1000000) 10)
         = digit_char (nat ns div 1000000 mod 10)"
proof -
  have q0: "quo ns 1000000 = ns div 1000000" using assms by (simp add: quo_nonneg)
  have q1: "quo (ns div 1000000) 10 = ns div 10000000" using assms by (simp add: quo_nonneg)
  have q2: "quo (ns div 10000000) 10 = ns div 100000000" using assms by (simp add: quo_nonneg)
  have n0: "nat (ns div 1000000) = nat ns div 1000000" using assms by (simp add: nat_div_distrib)
  have n1: "nat (ns div 10000000) = nat ns div 10000000" using assms by (simp add: nat_div_distrib)
  have n2: "nat (ns div 100000000) = nat ns div 100000000" using assms by (simp add: nat_div_distrib)
  have "ns div 100000000 \<le> 9" "0 \<le> ns div 100000000" using assms by simp_all
  then show "byte (48 + quo (quo (quo ns 1000000) 10) 10) = digit_char (nat ns div 100000000)"
    using byte_digit [of "ns div 100000000"] by (simp add: q0 q1 q2 n2)
  have d: "ns div 10000000 div 10 = ns div 100000000" by simp
  have "0 \<le> ns div 10000000" using assms by simp
  from byte_last_digit [OF this]
  show "byte (48 + quo (quo ns 1000000) 10 - 10 * quo (quo (quo ns 1000000) 10) 10)
         = digit_char (nat ns div 10000000 mod 10)"
    by (simp only: q0 q1 q2 n1 d)
  have d': "ns div 1000000 div 10 = ns div 10000000" by simp
  have "0 \<le> ns div 1000000" using assms by simp
  from byte_last_digit [OF this]
  show "byte (48 + quo ns 1000000 - 10 * quo (quo ns 1000000) 10)
         = digit_char (nat ns div 1000000 mod 10)"
    by (simp only: q0 q1 n0 d')
qed

lemma time_digits:
  assumes "valid_time t" "0 \<le> Year t" "Year t \<le> 9999"
  shows "buf (time e t) = buf e @ [quote]
     @ [digit_char (nat (Year t) div 1000), digit_char (nat (Year t) div 100 mod 10),
        digit_char (nat (Year t) div 10 mod 10), digit_char (nat (Year t) mod 10)]
     @ ''-'' @ two_digits (nat (Month t)) @ ''-'' @ two_digits (nat (Day t))
     @ ''T'' @ two_digits (nat (Hour t)) @ '':'' @ two_digits (nat (Minute t))
     @ '':'' @ two_digits (nat (Second t))
     @ ''.'' @ [digit_char (nat (Nanosecond t) div 100000000),
                digit_char (nat (Nanosecond t) div 10000000 mod 10),
                digit_char (nat (Nanosecond t) div 1000000 mod 10)]
     @ ''Z'' @ [quote]"
proof -
  have v: "0 \<le> Month t" "Month t \<le> 99" "0 \<le> Day t" "Day t \<le> 99" "0 \<le> Hour t" "Hour t \<le> 99"
    "0 \<le> Minute t" "Minute t \<le> 99" "0 \<le> Second t" "Second t \<le> 99"
    "0 \<le> Nanosecond t" "Nanosecond t \<le> 999999999"
    using assms(1) by (simp_all add: valid_time_def)
  show ?thesis
    by (simp only: time_closed year_digit_bytes [OF assms(2,3)]
        two_digit_bytes [OF v(1,2)] two_digit_bytes [OF v(3,4)] two_digit_bytes [OF v(5,6)]
        two_digit_bytes [OF v(7,8)] two_digit_bytes [OF v(9,10)]
        milli_digit_bytes [OF v(11,12)] two_digits_def append_Cons append_Nil)
qed

subsection \<open>The general formatter on bounded fields\<close>

fun fixed_digits :: "nat \<Rightarrow> nat \<Rightarrow> string" where
  "fixed_digits 0 n = []"
| "fixed_digits (Suc w) n = fixed_digits w (n div 10) @ [digit_char (n mod 10)]"

lemma fixed_digits_zero: "fixed_digits w 0 = replicate w (CHR ''0'')"
  by (induction w) (simp_all add: digit_char_def replicate_append_same)

lemma length_decimal_pos: "0 < length (decimal n)"
  by (subst decimal.simps) simp

lemma pad_zero_snoc: "pad_zero (Suc w) (s @ [c]) = pad_zero w s @ [c]"
  by (simp add: pad_zero_def)

lemma pad_zero_decimal:
  "n < 10 ^ Suc w \<Longrightarrow> pad_zero (Suc w) (decimal n) = fixed_digits (Suc w) n"
proof (induction w arbitrary: n)
  case 0
  then show ?case
    by (subst decimal.simps) (simp add: pad_zero_def)
next
  case (Suc w)
  show ?case
  proof (cases "n < 10")
    case True
    then have "decimal n = [digit_char n]"
      by (subst decimal.simps) simp
    with True show ?thesis
      by (simp add: pad_zero_def fixed_digits_zero replicate_append_same)
  next
    case False
    then have d: "decimal n = decimal (n div 10) @ [digit_char (n mod 10)]"
      by (subst decimal.simps) simp
    have "n div 10 < 10 ^ Suc w"
      using Suc.prems by (simp add: less_mult_imp_div_less mult.commute)
    from Suc.IH [OF this] show ?thesis
      by (simp only: d pad_zero_snoc fixed_digits.simps)
  qed
qed

lemma pad2_decimal: "n \<le> 99 \<Longrightarrow> pad_zero 2 (decimal n) = two_digits n"
  using pad_zero_decimal [of n 1] by (simp add: two_digits_def numeral_2_eq_2)

lemma fixed_digits_numeral:
  "fixed_digits (numeral k) n = fixed_digits (pred_numeral k) (n div 10) @ [digit_char (n mod 10)]"
  by (simp only: numeral_eq_Suc [of k] fixed_digits.simps)

lemma pad4_decimal:
  "n \<le> 9999 \<Longrightarrow> pad_zero 4 (decimal n)
     = [digit_char (n div 1000), digit_char (n div 100 mod 10),
        digit_char (n div 10 mod 10), digit_char (n mod 10)]"
proof -
  assume n: "n \<le> 9999"
  then have "n div 1000 < 10" by simp
  then have m: "n div 1000 mod 10 = n div 1000" by simp
  have e: "n div 10 div 10 = n div 100" "n div 100 div 10 = n div 1000" by simp_all
  have "n < 10 ^ Suc 3" using n by simp
  from pad_zero_decimal [OF this] have "pad_zero 4 (decimal n) = fixed_digits 4 n" by simp
  then show ?thesis
    by (simp add: fixed_digits_numeral e m)
qed

lemma pad9_decimal_take3:
  "n \<le> 999999999 \<Longrightarrow> take 3 (pad_zero 9 (decimal n))
     = [digit_char (n div 100000000), digit_char (n div 10000000 mod 10),
        digit_char (n div 1000000 mod 10)]"
proof -
  assume n: "n \<le> 999999999"
  then have "n div 100000000 < 10" by simp
  then have m: "n div 100000000 mod 10 = n div 100000000" by simp
  have e: "n div 10 div 10 = n div 100" "n div 100 div 10 = n div 1000"
    "n div 1000 div 10 = n div 10000" "n div 10000 div 10 = n div 100000"
    "n div 100000 div 10 = n div 1000000" "n div 1000000 div 10 = n div 10000000"
    "n div 10000000 div 10 = n div 100000000" by simp_all
  have "n < 10 ^ Suc 8" using n by simp
  from pad_zero_decimal [OF this] have "pad_zero 9 (decimal n) = fixed_digits 9 n" by simp
  then show ?thesis
    by (simp add: fixed_digits_numeral e m)
qed

lemma digit_char_eq_zero: "d < 10 \<Longrightarrow> (digit_char d = CHR ''0'') = (d = 0)"
proof -
  assume "d < 10"
  then have "d = 0 \<or> d = 1 \<or> d = 2 \<or> d = 3 \<or> d = 4 \<or> d = 5 \<or> d = 6 \<or> d = 7 \<or> d = 8 \<or> d = 9"
    by arith
  then show ?thesis
    by (elim disjE) (simp_all add: digit_char_def)
qed

lemma formatNano_fixed:
  "0 \<le> ns \<Longrightarrow> ns \<le> 999999999 \<Longrightarrow> formatNano ns 3 False
     = CHR ''.'' # [digit_char (nat ns div 100000000), digit_char (nat ns div 10000000 mod 10),
                   digit_char (nat ns div 1000000 mod 10)]"
  using pad9_decimal_take3 [of "nat ns"] by (simp add: formatNano_def)

lemma formatNano_trim_same:
  assumes "0 \<le> ns" "ns \<le> 999999999"
  shows "(formatNano ns 3 True = formatNano ns 3 False) = (nat ns div 1000000 mod 10 \<noteq> 0)"
proof -
  let ?d1 = "digit_char (nat ns div 100000000)"
  let ?d2 = "digit_char (nat ns div 10000000 mod 10)"
  let ?d3 = "digit_char (nat ns div 1000000 mod 10)"
  have t3: "take 3 (pad_zero 9 (decimal (nat ns))) = [?d1, ?d2, ?d3]"
    using assms pad9_decimal_take3 [of "nat ns"] by simp
  have z: "(?d3 = CHR ''0'') = (nat ns div 1000000 mod 10 = 0)"
    by (rule digit_char_eq_zero) simp
  show ?thesis
  proof (cases "nat ns div 1000000 mod 10 = 0")
    case True
    then have "?d3 = CHR ''0''" using z by simp
    then have "length (formatNano ns 3 True) < 4"
      by (simp add: formatNano_def t3 Let_def)
    moreover have "length (formatNano ns 3 False) = 4"
      by (simp add: formatNano_def t3 Let_def)
    ultimately show ?thesis using True by auto
  next
    case False
    then have "?d3 \<noteq> CHR ''0''" using z by simp
    then show ?thesis using False
      by (simp add: formatNano_def t3 Let_def)
  qed
qed

lemma general_format_fixed:
  assumes "valid_time t" "0 \<le> Year t" "Year t \<le> 9999"
  shows "general_format False t =
     [digit_char (nat (Year t) div 1000), digit_char (nat (Year t) div 100 mod 10),
        digit_char (nat (Year t) div 10 mod 10), digit_char (nat (Year t) mod 10)]
     @ ''-'' @ two_digits (nat (Month t)) @ ''-'' @ two_digits (nat (Day t))
     @ ''T'' @ two_digits (nat (Hour t)) @ '':'' @ two_digits (nat (Minute t))
     @ '':'' @ two_digits (nat (Second t))
     @ ''.'' @ [digit_char (nat (Nanosecond t) div 100000000),
                digit_char (nat (Nanosecond t) div 10000000 mod 10),
                digit_char (nat (Nanosecond t) div 1000000 mod 10)]
     @ ''Z''"
proof -
  have v: "0 \<le> Month t" "Month t \<le> 99" "0 \<le> Day t" "Day t \<le> 99" "0 \<le> Hour t" "Hour t \<le> 99"
    "0 \<le> Minute t" "Minute t \<le> 99" "0 \<le> Second t" "Second t \<le> 99"
    "0 \<le> Nanosecond t" "Nanosecond t \<le> 999999999"
    using assms(1) by (simp_all add: valid_time_def)
  have two: "time_appendInt a 2 = two_digits (nat a)" if "0 \<le> a" "a \<le> 99" for a
    using that pad2_decimal [of "nat a"] by (simp add: time_appendInt_def)
  have four: "time_appendInt (Year t) 4 =
     [digit_char (nat (Year t) div 1000), digit_char (nat (Year t) div 100 mod 10),
        digit_char (nat (Year t) div 10 mod 10), digit_char (nat (Year t) mod 10)]"
    using assms(2,3) pad4_decimal [of "nat (Year t)"] by (simp add: time_appendInt_def)
  show ?thesis
    by (simp add: general_format_def four two v formatNano_fixed)
qed

text \<open>
  C5 (amended). For a UTC year from 0 to 9999 (so also from 1000 to 9999) the fast
  formatter writes, between quotes, what the general-purpose formatter writes for the
  layout \<^verbatim>\<open>2006-01-02T15:04:05.000Z\<close>: three millisecond digits, truncated, always
  present. It agrees with the layout \<^verbatim>\<open>2006-01-02T15:04:05.999Z\<close> exactly when the
  millisecond value does not end in the digit 0, since that layout drops trailing zeros.
\<close>

theorem time_equals_general_format:
  assumes "valid_time t" "0 \<le> Year t" "Year t \<le> 9999"
  shows "buf (time e t) = buf e @ [quote] @ general_format False t @ [quote]
    \<and> ((buf (time e t) = buf e @ [quote] @ general_format True t @ [quote])
        = (nat (Nanosecond t) div 1000000 mod 10 \<noteq> 0))"
proof -
  have ns: "0 \<le> Nanosecond t" "Nanosecond t \<le> 999999999"
    using assms(1) by (simp_all add: valid_time_def)
  have fixed: "buf (time e t) = buf e @ [quote] @ general_format False t @ [quote]"
    by (simp only: time_digits [OF assms] general_format_fixed [OF assms] append_assoc)
  have "(buf e @ [quote] @ general_format False t @ [quote]
          = buf e @ [quote] @ general_format True t @ [quote])
        = (formatNano (Nanosecond t) 3 True = formatNano (Nanosecond t) 3 False)"
    by (auto simp: general_format_def)
  then show ?thesis
    using fixed formatNano_trim_same [OF ns] by simp
qed

definition example_time :: time_Time where
  "example_time = \<lparr>Year = 2024, Month = 2, Day = 29, Hour = 23, Minute = 59, Second = 58,
     Nanosecond = 123456789, Unix = 1709251198\<rparr>"

definition example_time_zero_millis :: time_Time where
  "example_time_zero_millis = \<lparr>Year = 2020, Month = 1, Day = 1, Hour = 0, Minute = 0, Second = 0,
     Nanosecond = 0, Unix = 1577836800\<rparr>"

theorem time_equals_general_format_witness:
  "buf (time new_Event example_time)
     = buf new_Event @ [quote] @ general_format False example_time @ [quote]
   \<and> ((buf (time new_Event example_time)
         = buf new_Event @ [quote] @ general_format True example_time @ [quote])
        = (nat (Nanosecond example_time) div 1000000 mod 10 \<noteq> 0))"
proof -
  have v: "valid_time example_time"
    by (simp add: valid_time_def example_time_def)
  have y: "0 \<le> Year example_time" "Year example_time \<le> 9999"
    by (simp_all add: example_time_def)
  show ?thesis
    by (rule time_equals_general_format [OF v y])
qed

lemma decimal_digit: "n < 10 \<Longrightarrow> decimal n = [digit_char n]"
  by (subst decimal.simps) simp

lemma decimal_step: "10 \<le> n \<Longrightarrow> decimal n = decimal (n div 10) @ [digit_char (n mod 10)]"
  by (subst decimal.simps) simp

theorem time_differs_from_layout_999:
  "buf (time new_Event example_time_zero_millis)
     = [quote] @ ''2020-01-01T00:00:00.000Z'' @ [quote]
   \<and> [quote] @ general_format True example_time_zero_millis @ [quote]
     = [quote] @ ''2020-01-01T00:00:00Z'' @ [quote]
   \<and> buf (time new_Event example_time_zero_millis)
     \<noteq> buf new_Event @ [quote] @ general_format True example_time_zero_millis @ [quote]"
proof -
  have a: "buf (time new_Event example_time_zero_millis)
     = [quote] @ ''2020-01-01T00:00:00.000Z'' @ [quote]"
    by (simp add: time_closed example_time_zero_millis_def new_Event_def quo_def byte_def char_of_def)
  have b: "general_format True example_time_zero_millis = ''2020-01-01T00:00:00Z''"
    by (simp add: general_format_def example_time_zero_millis_def time_appendInt_def
        formatNano_def pad_zero_def decimal_digit decimal_step digit_char_def)
  have c: "buf new_Event = []"
    by (simp add: new_Event_def)
  show ?thesis
    by (simp add: a b c)
qed

text \<open>
  C4 (amended). For every timestamp the fast formatter appends exactly 26 bytes to the
  buffer and leaves what was there in place: the template
  \<^verbatim>\<open>"2006-01-02T15:04:05.999Z"\<close>, whose 24 characters stand between two quote
  characters, with the 17 digit offsets overwritten. The quotes and the separators
  \<^verbatim>\<open>- - T : : . Z\<close> of the template stay at their offsets, and for a UTC year from 0
  to 9999 the overwritten bytes are the decimal digits of the year, month, day, hour,
  minute, second and millisecond (truncated).
\<close>

theorem time_fixed_width:
  "length (buf (time e t)) = length (buf e) + 26
   \<and> take (length (buf e)) (buf (time e t)) = buf e
   \<and> map (\<lambda>i. buf (time e t) ! (length (buf e) + i)) [0, 5, 8, 11, 14, 17, 20, 24, 25]
       = map (\<lambda>i. time_template ! i) [0, 5, 8, 11, 14, 17, 20, 24, 25]
   \<and> map (\<lambda>i. time_template ! i) [0, 5, 8, 11, 14, 17, 20, 24, 25] = [quote] @ ''--T::.Z'' @ [quote]
   \<and> (valid_time t \<and> 0 \<le> Year t \<and> Year t \<le> 9999 \<longrightarrow>
        buf (time e t) = buf e @ [quote]
         @ [digit_char (nat (Year t) div 1000), digit_char (nat (Year t) div 100 mod 10),
            digit_char (nat (Year t) div 10 mod 10), digit_char (nat (Year t) mod 10)]
         @ ''-'' @ two_digits (nat (Month t)) @ ''-'' @ two_digits (nat (Day t))
         @ ''T'' @ two_digits (nat (Hour t)) @ '':'' @ two_digits (nat (Minute t))
         @ '':'' @ two_digits (nat (Second t))
         @ ''.'' @ [digit_char (nat (Nanosecond t) div 100000000),
                    digit_char (nat (Nanosecond t) div 10000000 mod 10),
                    digit_char (nat (Nanosecond t) div 1000000 mod 10)]
         @ ''Z'' @ [quote])"
proof -
  have a: "length (buf (time e t)) = length (buf e) + 26"
    by (simp add: time_closed)
  have b: "take (length (buf e)) (buf (time e t)) = buf e"
    by (simp add: time_closed)
  have c: "map (\<lambda>i. buf (time e t) ! (length (buf e) + i)) [0, 5, 8, 11, 14, 17, 20, 24, 25]
       = map (\<lambda>i. time_template ! i) [0, 5, 8, 11, 14, 17, 20, 24, 25]"
    by (simp add: time_closed time_template_def nth_append)
  have d: "map (\<lambda>i. time_template ! i) [0, 5, 8, 11, 14, 17, 20, 24, 25] = [quote] @ ''--T::.Z'' @ [quote]"
    by (simp add: time_template_def)
  show ?thesis
    using a b c d time_digits [of t e] by blast
qed

theorem time_fixed_width_witness:
  "length (buf (time new_Event example_time)) = 26
   \<and> buf (time new_Event example_time) = [quote] @ ''2024-02-29T23:59:58.123Z'' @ [quote]"
proof -
  have v: "valid_time example_time \<and> 0 \<le> Year example_time \<and> Year example_time \<le> 9999"
    by (simp add: valid_time_def example_time_def)
  have n: "buf new_Event = []"
    by (simp add: new_Event_def)
  from time_fixed_width [of new_Event example_time] v
  have "length (buf (time new_Event example_time)) = length (buf new_Event) + 26"
    and "buf (time new_Event example_time) = buf new_Event @ [quote]
         @ [digit_char (nat (Year example_time) div 1000), digit_char (nat (Year example_time) div 100 mod 10),
            digit_char (nat (Year example_time) div 10 mod 10), digit_char (nat (Year example_time) mod 10)]
         @ ''-'' @ two_digits (nat (Month example_time)) @ ''-'' @ two_digits (nat (Day example_time))
         @ ''T'' @ two_digits (nat (Hour example_time)) @ '':'' @ two_digits (nat (Minute example_time))
         @ '':'' @ two_digits (nat (Second example_time))
         @ ''.'' @ [digit_char (nat (Nanosecond example_time) div 100000000),
                    digit_char (nat (Nanosecond example_time) div 10000000 mod 10),
                    digit_char (nat (Nanosecond example_time) div 1000000 mod 10)]
         @ ''Z'' @ [quote]"
    by blast+
  then show ?thesis
    by (simp add: n example_time_def two_digits_def digit_char_def)
qed

text \<open>
  C4 as stated fails on the count: the literal is 26 characters long with its quotes, not
  24.
\<close>

theorem time_length_not_24:
  "buf (time new_Event example_time) = [quote] @ ''2024-02-29T23:59:58.123Z'' @ [quote]
   \<and> length (buf (time new_Event example_time)) = 26
   \<and> length (buf (time new_Event example_time)) \<noteq> 24"
proof -
  have "buf (time new_Event example_time) = [quote] @ ''2024-02-29T23:59:58.123Z'' @ [quote]"
    by (simp add: time_closed example_time_def new_Event_def quo_def byte_def char_of_def)
  then show ?thesis by simp
qed

section \<open>The level gate\<close>

subsection \<open>Loggers, collaborators and a world for the examples\<close>

definition example_ext :: "(nat, string option) ext" where
  \<comment> \<open>collaborators for the examples: a value is given by the JSON text the marshaler
     returns for it, and \<open>None\<close> is a value the marshaler rejects\<close>
  "example_ext =
    \<lparr>AppendFormat = (\<lambda>t layout. ''Mon Jan 1''),
     runtime_Caller = (\<lambda>skip. Some (''/src/app/main.go'', 42)),
     runtime_Stack = (\<lambda>all. ''goroutine 1 [running]''),
     AppendFloat = (\<lambda>f. AppendUint f @ ''.5''),
     Duration_String = (\<lambda>d. AppendInt d @ ''ns''),
     json_Marshal = (\<lambda>v. case v of None \<Rightarrow> Inl ''json: unsupported type: chan int''
                              | Some js \<Rightarrow> Inr js)\<rparr>"

definition DefaultLogger :: Logger where
  \<comment> \<open>\<^verbatim>\<open>var DefaultLogger\<close>; its writer \<^verbatim>\<open>&Writer{}\<close> has the handle 0\<close>
  "DefaultLogger = \<lparr>Level = DebugLevel, Caller = False, EscapeHTML = False, TimeField = [],
     TimeFormat = [], Writer = Some 0\<rparr>"

definition zero_Logger :: Logger where
  \<comment> \<open>\<^verbatim>\<open>Logger{}\<close>: every field has its zero value, the writer is nil\<close>
  "zero_Logger = \<lparr>Level = DebugLevel, Caller = False, EscapeHTML = False, TimeField = [],
     TimeFormat = [], Writer = None\<rparr>"

definition empty_world :: world where
  "empty_world = \<lparr>sink = [], epool = [], exited = None\<rparr>"

subsection \<open>The gate\<close>

text \<open>
  C1 (amended). When the level is below the logger's level, \<open>WithLevel\<close> returns the
  nil event and the world as it was: no event is taken from the pool, nothing is
  appended to any buffer and nothing is written; this holds for every logger. For every
  logger whose writer is not nil, \<open>WithLevel\<close> returns an active event exactly when the
  level is at least the logger's level.
\<close>

theorem WithLevel_gate:
  "(level_rank level < level_rank (Level l) \<longrightarrow> WithLevel x l level now w = Inr (None, w))
   \<and> (Writer l \<noteq> None \<longrightarrow>
        (\<exists>e w'. WithLevel x l level now w = Inr (Some e, w'))
          = (level_rank (Level l) \<le> level_rank level))"
proof (cases "level_rank level < level_rank (Level l)")
  case True
  then show ?thesis by (simp add: WithLevel_def)
next
  case False
  have "\<exists>e w'. WithLevel x l level now w = Inr (Some e, w')" if "Writer l \<noteq> None"
    using that False by (auto simp: WithLevel_def Let_def split_beta)
  with False show ?thesis by auto
qed

theorem WithLevel_gate_witness:
  "WithLevel example_ext (DefaultLogger\<lparr>Level := WarnLevel\<rparr>) InfoLevel example_time empty_world
     = Inr (None, empty_world)
   \<and> (\<exists>e w'. WithLevel example_ext DefaultLogger InfoLevel example_time empty_world
        = Inr (Some e, w'))"
proof -
  have a: "WithLevel example_ext (DefaultLogger\<lparr>Level := WarnLevel\<rparr>) InfoLevel example_time
      empty_world = Inr (None, empty_world)"
    using WithLevel_gate [of InfoLevel "DefaultLogger\<lparr>Level := WarnLevel\<rparr>" example_ext
        example_time empty_world]
    by simp
  have b: "\<exists>e w'. WithLevel example_ext DefaultLogger InfoLevel example_time empty_world
        = Inr (Some e, w')"
    using WithLevel_gate [of InfoLevel DefaultLogger example_ext example_time empty_world]
    by (simp add: DefaultLogger_def)
  from a b show ?thesis by (rule conjI)
qed

text \<open>
  C1 as stated fails for a logger whose writer is nil, such as \<^verbatim>\<open>Logger{}\<close>: the
  fatal level passes the gate, and \<open>WithLevel\<close> panics instead of returning an event.
\<close>

theorem WithLevel_nil_writer:
  "level_rank (Level zero_Logger) \<le> level_rank FatalLevel
   \<and> WithLevel example_ext zero_Logger FatalLevel example_time empty_world
       = Inl (NilDereference, empty_world)"
  by (simp add: zero_Logger_def WithLevel_def epool_Get_def empty_world_def)

section \<open>The nil event\<close>

text \<open>
  C6. On the nil event every field-append method returns the nil event, whatever its
  arguments, and so does every chain of them; the terminal calls leave the world as it
  was. No method of the model can fail, and none but the terminal calls can reach the
  world.
\<close>

theorem nil_event_noop:
  "Time x None k t = None \<and> Timestamp None now = None
   \<and> Bool None k b = None \<and> Bools None k bs = None
   \<and> Dur x None k d = None \<and> Durs x None k ds = None
   \<and> Err None err = None \<and> Errs None k errs = None
   \<and> Float64 x None k f = None \<and> Floats64 x None k fs = None
   \<and> Floats32 x None k fs = None \<and> Float32 x None k f = None
   \<and> Int64 None k i = None \<and> Int' None k i = None \<and> Int32 None k i = None
   \<and> Int16 None k i = None \<and> Int8 None k i = None
   \<and> Uint64 None k u = None \<and> Uint32 None k u = None
   \<and> Uint16 None k u = None \<and> Uint8 None k u = None
   \<and> RawJSON None k raw = None \<and> Str None k s = None \<and> Strs None k ss = None
   \<and> Bytes None k s = None \<and> Interface x None k v = None \<and> Caller' x None = None
   \<and> call x None c = None \<and> calls x None cs = None
   \<and> Send x None w = w \<and> Msg x None m w = w"
proof -
  have each: "call x None c = None" for c :: "('a, 'b) field"
    by (cases c)
      (simp_all add: Time_def Timestamp_def Bool_def Bools_def Dur_def Durs_def Err_def
        Errs_def Float64_def Floats64_def Floats32_def Float32_def Int64_def Int'_def
        Int32_def Int16_def Int8_def Uint64_def Uint32_def Uint16_def Uint8_def RawJSON_def
        Str_def Strs_def Bytes_def Interface_def Caller'_def)
  have chain: "calls x None cs = None"
    unfolding calls_def by (induction cs) (simp_all add: each)
  show ?thesis
    by (simp add: each chain Time_def Timestamp_def Bool_def Bools_def Dur_def Durs_def Err_def
        Errs_def Float64_def Floats64_def Floats32_def Float32_def Int64_def Int'_def
        Int32_def Int16_def Int8_def Uint64_def Uint32_def Uint16_def Uint8_def RawJSON_def
        Str_def Strs_def Bytes_def Interface_def Caller'_def Send_def Msg_def)
qed

section \<open>Facts about UTF-8 decoding\<close>

lemma first_size_cases:
  "first_size b = 0 \<or> first_size b = 1 \<or> first_size b = 2 \<or> first_size b = 3 \<or> first_size b = 4"
  by (simp add: first_size_def)

lemma first_size_ascii: "(first_size b = 1) = (b < 0x80)"
  by (simp add: first_size_def)

lemma DecodeRune_Nil: "DecodeRuneInString [] = (RuneError, 0)"
  by (simp add: DecodeRuneInString_def)

lemma DecodeRune_ascii:
  "s \<noteq> [] \<Longrightarrow> of_char (s ! 0) < (0x80 :: nat) \<Longrightarrow> DecodeRuneInString s = (of_char (s ! 0), 1)"
  by (simp add: DecodeRuneInString_def Let_def first_size_def)

lemma DecodeRune_bad_first:
  "s \<noteq> [] \<Longrightarrow> first_size (of_char (s ! 0)) = 0 \<Longrightarrow> DecodeRuneInString s = (RuneError, 1)"
  by (simp add: DecodeRuneInString_def Let_def)

lemma DecodeRune_short:
  "s \<noteq> [] \<Longrightarrow> length s < first_size (of_char (s ! 0)) \<Longrightarrow> DecodeRuneInString s = (RuneError, 1)"
  by (cases s) (auto simp: DecodeRuneInString_def Let_def)

lemma DecodeRune_2:
  "first_size (of_char (s ! 0)) = 2 \<Longrightarrow> 2 \<le> length s \<Longrightarrow>
   DecodeRuneInString s =
     (if of_char (s ! 1) < accept_lo (of_char (s ! 0)) \<or> accept_hi (of_char (s ! 0)) < (of_char (s ! 1) :: nat)
      then (RuneError, 1)
      else ((of_char (s ! 0) mod 0x20) * 0x40 + of_char (s ! 1) mod 0x40, 2))"
  by (cases s) (auto simp: DecodeRuneInString_def Let_def)

lemma DecodeRune_3:
  "first_size (of_char (s ! 0)) = 3 \<Longrightarrow> 3 \<le> length s \<Longrightarrow>
   DecodeRuneInString s =
     (if of_char (s ! 1) < accept_lo (of_char (s ! 0)) \<or> accept_hi (of_char (s ! 0)) < (of_char (s ! 1) :: nat)
         \<or> of_char (s ! 2) < (0x80 :: nat) \<or> 0xBF < (of_char (s ! 2) :: nat)
      then (RuneError, 1)
      else ((of_char (s ! 0) mod 0x10) * 0x1000 + (of_char (s ! 1) mod 0x40) * 0x40
            + of_char (s ! 2) mod 0x40, 3))"
  by (cases s) (auto simp: DecodeRuneInString_def Let_def)

lemma DecodeRune_4:
  "first_size (of_char (s ! 0)) = 4 \<Longrightarrow> 4 \<le> length s \<Longrightarrow>
   DecodeRuneInString s =
     (if of_char (s ! 1) < accept_lo (of_char (s ! 0)) \<or> accept_hi (of_char (s ! 0)) < (of_char (s ! 1) :: nat)
         \<or> of_char (s ! 2) < (0x80 :: nat) \<or> 0xBF < (of_char (s ! 2) :: nat)
         \<or> of_char (s ! 3) < (0x80 :: nat) \<or> 0xBF < (of_char (s ! 3) :: nat)
      then (RuneError, 1)
      else ((of_char (s ! 0) mod 0x08) * 0x40000 + (of_char (s ! 1) mod 0x40) * 0x1000
            + (of_char (s ! 2) mod 0x40) * 0x40 + of_char (s ! 3) mod 0x40, 4))"
  by (cases s) (auto simp: DecodeRuneInString_def Let_def)

lemma DecodeRune_size_cases:
  assumes "s \<noteq> []"
  shows "snd (DecodeRuneInString s) = 1
     \<or> (snd (DecodeRuneInString s) = first_size (of_char (s ! 0))
        \<and> 2 \<le> first_size (of_char (s ! 0)) \<and> first_size (of_char (s ! 0)) \<le> length s)"
proof -
  let ?sz = "first_size (of_char (s ! 0))"
  consider "?sz = 0" | "?sz = 1" | "2 \<le> ?sz" "length s < ?sz"
    | "?sz = 2" "2 \<le> length s" | "?sz = 3" "3 \<le> length s" | "?sz = 4" "4 \<le> length s"
    using first_size_cases [of "of_char (s ! 0)"] by fastforce
  then show ?thesis
  proof cases
    case 1 then show ?thesis using assms by (simp add: DecodeRune_bad_first)
  next
    case 2
    then have "of_char (s ! 0) < (0x80 :: nat)"
      using first_size_ascii [of "of_char (s ! 0)"] by simp
    then show ?thesis using assms by (simp add: DecodeRune_ascii)
  next
    case 3 then show ?thesis using assms by (simp add: DecodeRune_short)
  next
    case 4 then show ?thesis by (simp add: DecodeRune_2)
  next
    case 5 then show ?thesis by (simp add: DecodeRune_3)
  next
    case 6 then show ?thesis by (simp add: DecodeRune_4)
  qed
qed

lemma DecodeRune_size_le: "snd (DecodeRuneInString s) \<le> length s"
proof (cases "s = []")
  case True
  then show ?thesis by (simp add: DecodeRune_Nil)
next
  case False
  then have "1 \<le> length s" by (cases s) simp_all
  then show ?thesis using DecodeRune_size_cases [OF False] by auto
qed

section \<open>The string escaper, rune by rune\<close>

text \<open>
  \<open>esc\<close> states what \<^verbatim>\<open>Event.string\<close> writes between the two quotes as one step
  for each rune of the input: a safe ASCII byte is copied, any other ASCII byte is
  replaced by its escape, an invalid byte by the escape of U+FFFD, U+2028 and U+2029 by their
  escapes, and the bytes of every other rune are copied. \<open>string_esc\<close> below proves
  that the loop of the source, which copies the unescaped stretches lazily, writes
  exactly this.
\<close>

definition replacement_escape :: string where
  "replacement_escape = [backslash, CHR ''u'', CHR ''f'', CHR ''f'', CHR ''f'', CHR ''d'']"

definition esc_unit :: "string \<Rightarrow> bool \<Rightarrow> string \<times> nat" where
  \<comment> \<open>what one step writes for the first rune of a non-empty input, and the bytes it consumes\<close>
  "esc_unit s h =
    (let b = hd s in
     if of_char b < RuneSelf then
       (if htmlSafeSet b \<or> (\<not> h \<and> safeSet b) then ([b], 1) else (escape_ascii b, 1))
     else
       (let (c, size) = DecodeRuneInString s in
        if c = RuneError \<and> size = 1 then (replacement_escape, size)
        else if c = 0x2028 \<or> c = 0x2029 then
          ([backslash, CHR ''u'', CHR ''2'', CHR ''0'', CHR ''2'', hex ! (c mod 16)], size)
        else (take size s, size)))"

lemma esc_unit_size_pos: "s \<noteq> [] \<Longrightarrow> 0 < snd (esc_unit s h)"
  using DecodeRune_size_pos [of s]
  by (simp add: esc_unit_def Let_def split_beta)

function esc :: "string \<Rightarrow> bool \<Rightarrow> string" where
  "esc s h = (if s = [] then [] else fst (esc_unit s h) @ esc (drop (snd (esc_unit s h)) s) h)"
  by pat_completeness auto
termination
  by (relation "measure (\<lambda>(s, h). length s)") (use esc_unit_size_pos in \<open>auto simp: Suc_le_eq\<close>)

declare esc.simps [simp del]

lemma esc_Nil [simp]: "esc [] h = []"
  by (subst esc.simps) simp

lemma esc_step: "s \<noteq> [] \<Longrightarrow> esc s h = fst (esc_unit s h) @ esc (drop (snd (esc_unit s h)) s) h"
  by (subst esc.simps) simp

lemma esc_unit_size_le: "s \<noteq> [] \<Longrightarrow> snd (esc_unit s h) \<le> length s"
  using DecodeRune_size_le [of s]
  by (cases s) (simp_all add: esc_unit_def Let_def split_beta)

subsection \<open>The loop of the source writes what \<open>esc\<close> says\<close>

lemma flush_eq: "start \<le> i \<Longrightarrow> flush val start i bf = bf @ slice val start i"
  by (simp add: flush_def slice_def)

lemma loop_end: "\<not> i < length val \<Longrightarrow> string_loop val h start i bf = (start, bf)"
  by (subst string_loop.simps) simp

lemma loop_safe:
  "i < length val \<Longrightarrow> of_char (val ! i) < RuneSelf
   \<Longrightarrow> htmlSafeSet (val ! i) \<or> (\<not> h \<and> safeSet (val ! i))
   \<Longrightarrow> string_loop val h start i bf = string_loop val h start (i + 1) bf"
  by (subst string_loop.simps) (auto simp: Let_def)

lemma loop_escape_ascii:
  "i < length val \<Longrightarrow> of_char (val ! i) < RuneSelf
   \<Longrightarrow> \<not> (htmlSafeSet (val ! i) \<or> (\<not> h \<and> safeSet (val ! i)))
   \<Longrightarrow> string_loop val h start i bf
       = string_loop val h (i + 1) (i + 1) (flush val start i bf @ escape_ascii (val ! i))"
  by (subst string_loop.simps) (auto simp: Let_def)

lemma loop_invalid:
  "i < length val \<Longrightarrow> \<not> of_char (val ! i) < RuneSelf
   \<Longrightarrow> DecodeRuneInString (drop i val) = (RuneError, 1)
   \<Longrightarrow> string_loop val h start i bf
       = string_loop val h (i + 1) (i + 1) (flush val start i bf @ replacement_escape)"
  by (subst string_loop.simps) (simp add: Let_def replacement_escape_def)

lemma loop_separator:
  "i < length val \<Longrightarrow> \<not> of_char (val ! i) < RuneSelf
   \<Longrightarrow> DecodeRuneInString (drop i val) = (c, n) \<Longrightarrow> \<not> (c = RuneError \<and> n = 1)
   \<Longrightarrow> c = 0x2028 \<or> c = 0x2029
   \<Longrightarrow> string_loop val h start i bf
       = string_loop val h (i + n) (i + n)
           (flush val start i bf @ [backslash, CHR ''u'', CHR ''2'', CHR ''0'', CHR ''2'', hex ! (c mod 16)])"
  by (subst string_loop.simps) (auto simp: Let_def)

lemma loop_copy:
  "i < length val \<Longrightarrow> \<not> of_char (val ! i) < RuneSelf
   \<Longrightarrow> DecodeRuneInString (drop i val) = (c, n) \<Longrightarrow> \<not> (c = RuneError \<and> n = 1)
   \<Longrightarrow> \<not> (c = 0x2028 \<or> c = 0x2029)
   \<Longrightarrow> string_loop val h start i bf = string_loop val h start (i + n) bf"
  by (subst string_loop.simps) (auto simp: Let_def)

definition after_loop :: "string \<Rightarrow> nat \<times> string \<Rightarrow> string" where
  \<comment> \<open>\<^verbatim>\<open>if start < len(value) { e.buf = append(e.buf, value[start:]...) }\<close>\<close>
  "after_loop val r = (if fst r < length val then snd r @ drop (fst r) val else snd r)"

lemma slice_snoc:
  "start \<le> i \<Longrightarrow> i < length val \<Longrightarrow> slice val start (Suc i) = slice val start i @ [val ! i]"
proof -
  assume a: "start \<le> i" "i < length val"
  then have "Suc i - start = Suc (i - start)" by simp
  moreover have "i - start < length (drop start val)" using a by simp
  moreover have "drop start val ! (i - start) = val ! i" using a by simp
  ultimately show ?thesis
    by (simp add: slice_def take_Suc_conv_app_nth)
qed

lemma slice_add:
  "start \<le> i \<Longrightarrow> slice val start (i + n) = slice val start i @ take n (drop i val)"
proof -
  assume a: "start \<le> i"
  then have e: "i + n - start = (i - start) + n" by simp
  have "drop (i - start) (drop start val) = drop i val" using a by simp
  then show ?thesis
    by (simp only: slice_def e take_add)
qed

lemma slice_empty: "slice val i i = []"
  by (simp add: slice_def)

lemma string_loop_esc:
  "start \<le> i \<Longrightarrow> i \<le> length val \<Longrightarrow>
   after_loop val (string_loop val h start i bf) = bf @ slice val start i @ esc (drop i val) h"
proof (induction "length val - i" arbitrary: start i bf rule: less_induct)
  case less
  show ?case
  proof (cases "i < length val")
    case False
    with less.prems have i: "i = length val" by simp
    show ?thesis
      using less.prems by (simp add: loop_end i after_loop_def slice_def)
  next
    case True
    let ?s = "drop i val"
    have ne: "?s \<noteq> []" using True by simp
    have hd: "hd ?s = val ! i" using True by (simp add: hd_drop_conv_nth)
    have s0: "?s ! 0 = val ! i" using True by simp
    have step: "esc ?s h = fst (esc_unit ?s h) @ esc (drop (i + snd (esc_unit ?s h)) val) h"
      using esc_step [OF ne, of h] by (simp add: add.commute)
    show ?thesis
    proof (cases "of_char (val ! i) < RuneSelf")
      case ascii: True
      show ?thesis
      proof (cases "htmlSafeSet (val ! i) \<or> (\<not> h \<and> safeSet (val ! i))")
        case safe: True
        have u: "esc_unit ?s h = ([val ! i], 1)"
          using ascii safe by (auto simp: esc_unit_def hd Let_def)
        have "after_loop val (string_loop val h start (i + 1) bf)
              = bf @ slice val start (i + 1) @ esc (drop (i + 1) val) h"
          using less.prems True by (intro less.hyps) simp_all
        then show ?thesis
          using less.prems True
          by (simp add: loop_safe [OF True ascii safe] step u slice_snoc)
      next
        case unsafe: False
        have u: "esc_unit ?s h = (escape_ascii (val ! i), 1)"
          using ascii unsafe by (auto simp: esc_unit_def hd Let_def)
        have "after_loop val (string_loop val h (i + 1) (i + 1) (flush val start i bf @ escape_ascii (val ! i)))
              = (flush val start i bf @ escape_ascii (val ! i)) @ slice val (i + 1) (i + 1)
                @ esc (drop (i + 1) val) h"
          using less.prems True by (intro less.hyps) simp_all
        then show ?thesis
          using less.prems
          by (simp add: loop_escape_ascii [OF True ascii unsafe] step u slice_empty flush_eq)
      qed
    next
      case multi: False
      obtain c n where d: "DecodeRuneInString ?s = (c, n)"
        by (cases "DecodeRuneInString ?s") auto
      have npos: "0 < n" using DecodeRune_size_pos [OF ne] d by simp
      have nle: "i + n \<le> length val" using DecodeRune_size_le [of ?s] d True by simp
      show ?thesis
      proof (cases "c = RuneError \<and> n = 1")
        case inv: True
        have u: "esc_unit ?s h = (replacement_escape, 1)"
          using multi inv d by (auto simp: esc_unit_def hd Let_def)
        have d1: "DecodeRuneInString ?s = (RuneError, 1)" using d inv by simp
        have "after_loop val (string_loop val h (i + 1) (i + 1) (flush val start i bf @ replacement_escape))
              = (flush val start i bf @ replacement_escape) @ slice val (i + 1) (i + 1)
                @ esc (drop (i + 1) val) h"
          using less.prems True by (intro less.hyps) simp_all
        then show ?thesis
          using less.prems
          by (simp add: loop_invalid [OF True multi d1] step u slice_empty flush_eq)
      next
        case valid: False
        show ?thesis
        proof (cases "c = 0x2028 \<or> c = 0x2029")
          case sep: True
          let ?e = "[backslash, CHR ''u'', CHR ''2'', CHR ''0'', CHR ''2'', hex ! (c mod 16)]"
          have u: "esc_unit ?s h = (?e, n)"
            using multi valid sep d by (auto simp: esc_unit_def hd Let_def)
          have "after_loop val (string_loop val h (i + n) (i + n) (flush val start i bf @ ?e))
                = (flush val start i bf @ ?e) @ slice val (i + n) (i + n) @ esc (drop (i + n) val) h"
            using less.prems True npos nle by (intro less.hyps) simp_all
          then show ?thesis
            using less.prems
            by (simp add: loop_separator [OF True multi d valid sep] step u slice_empty flush_eq)
        next
          case other: False
          have u: "esc_unit ?s h = (take n ?s, n)"
            using multi valid other d by (auto simp: esc_unit_def hd Let_def)
          have "after_loop val (string_loop val h start (i + n) bf)
                = bf @ slice val start (i + n) @ esc (drop (i + n) val) h"
            using less.prems True npos nle by (intro less.hyps) simp_all
          then show ?thesis
            using less.prems
            by (simp add: loop_copy [OF True multi d valid other] step u slice_add)
        qed
      qed
    qed
  qed
qed

lemma string_esc: "string e val h = e\<lparr>buf := buf e @ [quote] @ esc val h @ [quote]\<rparr>"
proof -
  have "after_loop val (string_loop val h 0 0 (buf e @ [quote])) = (buf e @ [quote]) @ esc val h"
    using string_loop_esc [of 0 0 val h "buf e @ [quote]"] by (simp add: slice_def)
  then show ?thesis
    by (simp add: string_def after_loop_def Let_def split_beta)
qed

subsection \<open>Decoding a prefix\<close>

lemma DecodeRune_cases:
  assumes "s \<noteq> []"
  obtains
    (ascii) "of_char (s ! 0) < (0x80 :: nat)" "DecodeRuneInString s = (of_char (s ! 0), 1)"
  | (invalid) "\<not> of_char (s ! 0) < (0x80 :: nat)" "DecodeRuneInString s = (RuneError, 1)"
  | (two) "first_size (of_char (s ! 0)) = 2" "2 \<le> length s"
      "DecodeRuneInString s = ((of_char (s ! 0) mod 0x20) * 0x40 + of_char (s ! 1) mod 0x40, 2)"
      "accept_lo (of_char (s ! 0)) \<le> (of_char (s ! 1) :: nat)"
      "(of_char (s ! 1) :: nat) \<le> accept_hi (of_char (s ! 0))"
  | (three) "first_size (of_char (s ! 0)) = 3" "3 \<le> length s"
      "DecodeRuneInString s = ((of_char (s ! 0) mod 0x10) * 0x1000
          + (of_char (s ! 1) mod 0x40) * 0x40 + of_char (s ! 2) mod 0x40, 3)"
      "accept_lo (of_char (s ! 0)) \<le> (of_char (s ! 1) :: nat)"
      "(of_char (s ! 1) :: nat) \<le> accept_hi (of_char (s ! 0))"
      "0x80 \<le> (of_char (s ! 2) :: nat)" "(of_char (s ! 2) :: nat) \<le> 0xBF"
  | (four) "first_size (of_char (s ! 0)) = 4" "4 \<le> length s"
      "DecodeRuneInString s = ((of_char (s ! 0) mod 0x08) * 0x40000
          + (of_char (s ! 1) mod 0x40) * 0x1000 + (of_char (s ! 2) mod 0x40) * 0x40
          + of_char (s ! 3) mod 0x40, 4)"
      "accept_lo (of_char (s ! 0)) \<le> (of_char (s ! 1) :: nat)"
      "(of_char (s ! 1) :: nat) \<le> accept_hi (of_char (s ! 0))"
      "0x80 \<le> (of_char (s ! 2) :: nat)" "(of_char (s ! 2) :: nat) \<le> 0xBF"
      "0x80 \<le> (of_char (s ! 3) :: nat)" "(of_char (s ! 3) :: nat) \<le> 0xBF"
proof -
  let ?b = "of_char (s ! 0) :: nat"
  let ?sz = "first_size ?b"
  have na: "\<not> ?b < 0x80" if "?sz \<noteq> 1"
    using that first_size_ascii [of ?b] by simp
  consider "?sz = 0" | "?sz = 1" | "2 \<le> ?sz" "length s < ?sz"
    | "?sz = 2" "2 \<le> length s" | "?sz = 3" "3 \<le> length s" | "?sz = 4" "4 \<le> length s"
    using first_size_cases [of ?b] by fastforce
  then show ?thesis
  proof cases
    case 1
    then show ?thesis
      using assms na by (intro invalid) (simp_all add: DecodeRune_bad_first)
  next
    case 2
    then have "?b < 0x80" using first_size_ascii [of ?b] by simp
    then show ?thesis
      using assms by (intro ascii) (simp_all add: DecodeRune_ascii)
  next
    case 3
    then show ?thesis
      using assms na by (intro invalid) (simp_all add: DecodeRune_short)
  next
    case 4
    show ?thesis
    proof (cases "of_char (s ! 1) < accept_lo ?b \<or> accept_hi ?b < (of_char (s ! 1) :: nat)")
      case True
      then show ?thesis
        using 4 na by (intro invalid) (simp_all add: DecodeRune_2)
    next
      case False
      then show ?thesis
        using 4 by (intro two) (simp_all add: DecodeRune_2)
    qed
  next
    case 5
    show ?thesis
    proof (cases "of_char (s ! 1) < accept_lo ?b \<or> accept_hi ?b < (of_char (s ! 1) :: nat)
         \<or> of_char (s ! 2) < (0x80 :: nat) \<or> 0xBF < (of_char (s ! 2) :: nat)")
      case True
      then show ?thesis
        using 5 na by (intro invalid) (simp_all add: DecodeRune_3)
    next
      case False
      then show ?thesis
        using 5 by (intro three) (simp_all add: DecodeRune_3)
    qed
  next
    case 6
    show ?thesis
    proof (cases "of_char (s ! 1) < accept_lo ?b \<or> accept_hi ?b < (of_char (s ! 1) :: nat)
         \<or> of_char (s ! 2) < (0x80 :: nat) \<or> 0xBF < (of_char (s ! 2) :: nat)
         \<or> of_char (s ! 3) < (0x80 :: nat) \<or> 0xBF < (of_char (s ! 3) :: nat)")
      case True
      then show ?thesis
        using 6 na by (intro invalid) (simp_all add: DecodeRune_4)
    next
      case False
      then show ?thesis
        using 6 by (intro four) (simp_all add: DecodeRune_4)
    qed
  qed
qed

lemma DecodeRune_agree:
  assumes "s \<noteq> []" "s' \<noteq> []"
    and len: "snd (DecodeRuneInString s) \<le> length s'" "length s' \<le> length s"
    and same: "\<And>j. j < length s' \<Longrightarrow> s' ! j = s ! j"
  shows "DecodeRuneInString s' = DecodeRuneInString s"
proof -
  have s0: "s' ! 0 = s ! 0" using assms(2) same [of 0] by simp
  from assms(1) show ?thesis
  proof (cases rule: DecodeRune_cases)
    case ascii
    then show ?thesis using assms(2) s0 by (simp add: DecodeRune_ascii)
  next
    case invalid
    let ?b = "of_char (s ! 0) :: nat"
    from assms(2) show ?thesis
    proof (cases rule: DecodeRune_cases)
      case ascii
      then show ?thesis using invalid s0 by simp
    next
      case invalid
      then show ?thesis using \<open>DecodeRuneInString s = (RuneError, 1)\<close> by simp
    next
      case two
      then have "DecodeRuneInString s = ((?b mod 0x20) * 0x40 + of_char (s ! 1) mod 0x40, 2)"
        using len(2) same [of 1] s0 by (simp add: DecodeRune_2)
      then show ?thesis using invalid by simp
    next
      case three
      then have "DecodeRuneInString s = ((?b mod 0x10) * 0x1000
          + (of_char (s ! 1) mod 0x40) * 0x40 + of_char (s ! 2) mod 0x40, 3)"
        using len(2) same [of 1] same [of 2] s0 by (simp add: DecodeRune_3)
      then show ?thesis using invalid by simp
    next
      case four
      then have "DecodeRuneInString s = ((?b mod 0x08) * 0x40000
          + (of_char (s ! 1) mod 0x40) * 0x1000 + (of_char (s ! 2) mod 0x40) * 0x40
          + of_char (s ! 3) mod 0x40, 4)"
        using len(2) same [of 1] same [of 2] same [of 3] s0 by (simp add: DecodeRune_4)
      then show ?thesis using invalid by simp
    qed
  next
    case two
    then show ?thesis
      using len same [of 1] s0 by (simp add: DecodeRune_2)
  next
    case three
    then show ?thesis
      using len same [of 1] same [of 2] s0 by (simp add: DecodeRune_3)
  next
    case four
    then show ?thesis
      using len same [of 1] same [of 2] same [of 3] s0 by (simp add: DecodeRune_4)
  qed
qed

lemma DecodeRune_take:
  assumes "snd (DecodeRuneInString s) \<le> k" "0 < k"
  shows "DecodeRuneInString (take k s) = DecodeRuneInString s"
proof (cases "s = []")
  case True
  then show ?thesis by simp
next
  case False
  show ?thesis
  proof (rule DecodeRune_agree [OF False])
    show "take k s \<noteq> []" using False assms(2) by simp
    show "snd (DecodeRuneInString s) \<le> length (take k s)"
      using assms(1) DecodeRune_size_le [of s] by simp
    show "length (take k s) \<le> length s" by simp
    show "take k s ! j = s ! j" if "j < length (take k s)" for j
      using that by simp
  qed
qed

subsection \<open>Positions the scanner reaches\<close>

text \<open>
  The loop advances by one byte over an ASCII byte and an invalid byte, and by the size
  of the rune otherwise; in each case this is the size \<open>DecodeRuneInString\<close> returns.
  \<open>scan_reaches s k\<close> says that the loop index takes the value \<open>k\<close> while scanning \<open>s\<close>.
\<close>

function scan_reaches :: "string \<Rightarrow> nat \<Rightarrow> bool" where
  "scan_reaches s k =
    (if k = 0 then True
     else if s = [] then False
     else if k < snd (DecodeRuneInString s) then False
     else scan_reaches (drop (snd (DecodeRuneInString s)) s) (k - snd (DecodeRuneInString s)))"
  by pat_completeness auto
termination
  by (relation "measure (\<lambda>(s, k). length s)") (use DecodeRune_size_pos in \<open>auto simp: Suc_le_eq\<close>)

declare scan_reaches.simps [simp del]

lemma esc_unit_snd: "s \<noteq> [] \<Longrightarrow> snd (esc_unit s h) = snd (DecodeRuneInString s)"
proof -
  assume ne: "s \<noteq> []"
  then have hd: "hd s = s ! 0" by (simp add: hd_conv_nth)
  show ?thesis
  proof (cases "of_char (hd s) < RuneSelf")
    case True
    then have "DecodeRuneInString s = (of_char (s ! 0), 1)"
      using DecodeRune_ascii [OF ne] by (simp add: hd RuneSelf_def)
    with True show ?thesis
      by (simp add: esc_unit_def Let_def)
  next
    case False
    then show ?thesis
      by (simp add: esc_unit_def Let_def split_beta)
  qed
qed

lemma esc_unit_take:
  assumes "s \<noteq> []" "snd (DecodeRuneInString s) \<le> k"
  shows "esc_unit (take k s) h = esc_unit s h"
proof -
  have k: "0 < k" using DecodeRune_size_pos [OF assms(1)] assms(2) by simp
  have d: "DecodeRuneInString (take k s) = DecodeRuneInString s"
    using DecodeRune_take [OF assms(2) k] .
  have hd: "hd (take k s) = hd s" using k assms(1) by (cases s; cases k) simp_all
  have m: "min (snd (DecodeRuneInString s)) k = snd (DecodeRuneInString s)" "min (Suc 0) k = Suc 0"
    using assms(2) k by simp_all
  show ?thesis
  proof (cases "of_char (hd s) < RuneSelf")
    case True
    then show ?thesis by (simp add: esc_unit_def Let_def hd)
  next
    case False
    then show ?thesis
      by (simp add: esc_unit_def Let_def d hd split_beta m)
  qed
qed

lemma esc_split:
  "scan_reaches s k \<Longrightarrow> k \<le> length s \<Longrightarrow> esc s h = esc (take k s) h @ esc (drop k s) h"
proof (induction s k rule: scan_reaches.induct)
  case (1 s k)
  let ?n = "snd (DecodeRuneInString s)"
  show ?case
  proof (cases "k = 0")
    case True
    then show ?thesis by simp
  next
    case False
    with "1.prems"(1) have ne: "s \<noteq> []" and nk: "?n \<le> k"
      and r: "scan_reaches (drop ?n s) (k - ?n)"
      by (subst (asm) scan_reaches.simps; simp split: if_splits)+
    have n: "0 < ?n" using DecodeRune_size_pos [OF ne] .
    have "esc (drop ?n s) h = esc (take (k - ?n) (drop ?n s)) h @ esc (drop (k - ?n) (drop ?n s)) h"
      using "1.IH" [OF False ne _ r] nk "1.prems"(2) by simp
    then have ih: "esc (drop ?n s) h = esc (drop ?n (take k s)) h @ esc (drop k s) h"
      using nk by (simp add: drop_take)
    have tne: "take k s \<noteq> []" using ne False by simp
    have u: "esc_unit (take k s) h = esc_unit s h"
      using esc_unit_take [OF ne nk] .
    have "esc (take k s) h = fst (esc_unit s h) @ esc (drop ?n (take k s)) h"
      using esc_step [OF tne, of h] by (simp add: u esc_unit_snd [OF ne])
    moreover have "esc s h = fst (esc_unit s h) @ esc (drop ?n s) h"
      using esc_step [OF ne, of h] by (simp add: esc_unit_snd [OF ne])
    ultimately show ?thesis using ih by simp
  qed
qed

lemma esc_invalid_head:
  assumes "s \<noteq> []" "DecodeRuneInString s = (RuneError, 1)"
  shows "esc s h = replacement_escape @ esc (drop 1 s) h"
proof -
  have "\<not> of_char (s ! 0) < (0x80 :: nat)"
    using assms DecodeRune_ascii [OF assms(1)] by (auto simp: RuneError_def)
  then have "esc_unit s h = (replacement_escape, 1)"
    using assms by (simp add: esc_unit_def Let_def hd_conv_nth RuneSelf_def)
  then show ?thesis
    using esc_step [OF assms(1), of h] by simp
qed

section \<open>Invalid UTF-8\<close>

text \<open>
  C3. Let the scanner reach the position \<open>k\<close> of the input, and let the bytes from there
  on start with an invalid encoding. Then what \<^verbatim>\<open>Event.string\<close> writes between the
  quotes is: what it writes for the bytes before \<open>k\<close>, then the six characters of the
  escape of U+FFFD, then what it writes for the bytes after position \<open>k\<close>. One byte is
  skipped and the whole remainder is still encoded.
\<close>

theorem invalid_byte_replaced:
  assumes "scan_reaches val k" "k < length val"
    and "DecodeRuneInString (drop k val) = (RuneError, 1)"
  shows "buf (string e val h) = buf e @ [quote] @ esc val h @ [quote]
    \<and> esc val h = esc (take k val) h @ [backslash, CHR ''u'', CHR ''f'', CHR ''f'', CHR ''f'', CHR ''d'']
        @ esc (drop (Suc k) val) h
    \<and> length [backslash, CHR ''u'', CHR ''f'', CHR ''f'', CHR ''f'', CHR ''d''] = 6"
proof -
  have ne: "drop k val \<noteq> []" using assms(2) by simp
  have "esc val h = esc (take k val) h @ esc (drop k val) h"
    using esc_split [OF assms(1)] assms(2) by simp
  moreover have "esc (drop k val) h = replacement_escape @ esc (drop (Suc k) val) h"
    using esc_invalid_head [OF ne assms(3)] by simp
  ultimately show ?thesis
    by (simp add: string_esc replacement_escape_def)
qed

definition example_invalid :: string where
  "example_invalid = [CHR ''a'', CHR 0xE2, CHR 0x82, CHR 0xAC, CHR 0xFF, CHR ''b'', CHR ''<'']"

theorem invalid_byte_replaced_witness:
  "buf (string new_Event example_invalid False)
     = [quote, CHR ''a'', CHR 0xE2, CHR 0x82, CHR 0xAC, backslash, CHR ''u'', CHR ''f'', CHR ''f'',
        CHR ''f'', CHR ''d'', CHR ''b'', CHR ''<'', quote]"
proof -
  have d: "DecodeRuneInString [CHR 0xE2, CHR 0x82, CHR 0xAC, CHR 0xFF, CHR ''b'', CHR ''<''] = (0x20AC, 3)"
    by (simp add: DecodeRuneInString_def first_size_def accept_lo_def accept_hi_def Let_def)
  have a: "scan_reaches example_invalid 4"
    unfolding example_invalid_def
    apply (subst scan_reaches.simps, simp add: DecodeRune_ascii)
    apply (subst scan_reaches.simps, simp add: d)
    apply (subst scan_reaches.simps, simp)
    done
  have b: "4 < length example_invalid"
    by (simp add: example_invalid_def)
  have c: "DecodeRuneInString (drop 4 example_invalid) = (RuneError, 1)"
    by (simp add: example_invalid_def DecodeRuneInString_def first_size_def Let_def)
  have pre: "esc (take 4 example_invalid) False = [CHR ''a'', CHR 0xE2, CHR 0x82, CHR 0xAC]"
    unfolding example_invalid_def
    apply simp
    apply (subst esc.simps, simp add: esc_unit_def RuneSelf_def htmlSafeSet_def)
    apply (subst esc.simps, simp add: esc_unit_def RuneSelf_def DecodeRuneInString_def
        first_size_def accept_lo_def accept_hi_def Let_def RuneError_def)
    done
  have post: "esc (drop 5 example_invalid) False = [CHR ''b'', CHR ''<'']"
    unfolding example_invalid_def
    apply simp
    apply (subst esc.simps, simp add: esc_unit_def RuneSelf_def htmlSafeSet_def)
    apply (subst esc.simps, simp add: esc_unit_def RuneSelf_def htmlSafeSet_def safeSet_def)
    done
  show ?thesis
    using invalid_byte_replaced [OF a b c, of new_Event False]
    by (simp add: pre post new_Event_def)
qed

section \<open>What each call appends\<close>

text \<open>
  The text every operation appends to the buffer, written as a function of its
  arguments; \<open>call_appends\<close> proves that an operation on an active event appends this
  text and changes nothing else of the event.
\<close>

definition key_text :: "string \<Rightarrow> string" where
  "key_text k = [CHR '','', quote] @ k @ [quote, CHR '':'']"

definition time_text :: "time_Time \<Rightarrow> string" where
  "time_text t = buf (time new_Event t)"

definition str_lit :: "bool \<Rightarrow> string \<Rightarrow> string" where
  "str_lit h s = [quote] @ esc s h @ [quote]"

fun comma_join :: "string list \<Rightarrow> string" where
  "comma_join [] = []"
| "comma_join [y] = y"
| "comma_join (y # z # zs) = y @ '','' @ comma_join (z # zs)"

definition array_text :: "string list \<Rightarrow> string" where
  "array_text ys = ''['' @ comma_join ys @ '']''"

definition caller_text :: "('f, 'v) ext \<Rightarrow> nat \<Rightarrow> string" where
  "caller_text x skip =
    [CHR '','', quote] @ ''caller'' @ [quote, CHR '':'', quote]
    @ (case runtime_Caller x (2 + skip) of
         None \<Rightarrow> ''???:1''
       | Some (file, line) \<Rightarrow>
           after_last_slash file @ '':'' @ AppendInt (if line < 0 then 0 else line))
    @ [quote]"

definition time_value :: "('f, 'v) ext \<Rightarrow> string \<Rightarrow> time_Time \<Rightarrow> string" where
  "time_value x tf t = (if tf = [] then time_text t else [quote] @ AppendFormat x t tf @ [quote])"

definition err_text :: "bool \<Rightarrow> string option \<Rightarrow> string" where
  "err_text h err = (case err of None \<Rightarrow> ''null'' | Some msg \<Rightarrow> str_lit h msg)"

fun field_text :: "('f, 'v) ext \<Rightarrow> bool \<Rightarrow> string \<Rightarrow> ('f, 'v) field \<Rightarrow> string" where
  "field_text x h tf (TimeF k t) = key_text k @ time_value x tf t"
| "field_text x h tf (TimestampF now) = key_text ''timestamp'' @ AppendInt (Unix now)"
| "field_text x h tf (BoolF k b) = key_text k @ AppendBool b"
| "field_text x h tf (BoolsF k b) = key_text k @ array_text (map AppendBool b)"
| "field_text x h tf (DurF k d) = key_text k @ [quote] @ Duration_String x d @ [quote]"
| "field_text x h tf (DursF k d) =
     key_text k @ array_text (map (\<lambda>a. [quote] @ Duration_String x a @ [quote]) d)"
| "field_text x h tf (ErrF err) = key_text ''error'' @ err_text h err"
| "field_text x h tf (ErrsF k errs) = key_text k @ array_text (map (err_text h) errs)"
| "field_text x h tf (Float64F k f) = key_text k @ AppendFloat x f"
| "field_text x h tf (Floats64F k f) = key_text k @ array_text (map (AppendFloat x) f)"
| "field_text x h tf (Floats32F k f) = key_text k @ array_text (map (AppendFloat x) f)"
| "field_text x h tf (Int64F k i) = key_text k @ AppendInt i"
| "field_text x h tf (Uint64F k i) = key_text k @ AppendUint i"
| "field_text x h tf (Float32F k f) = key_text k @ AppendFloat x f"
| "field_text x h tf (IntF k i) = key_text k @ AppendInt i"
| "field_text x h tf (Int32F k i) = key_text k @ AppendInt i"
| "field_text x h tf (Int16F k i) = key_text k @ AppendInt i"
| "field_text x h tf (Int8F k i) = key_text k @ AppendInt i"
| "field_text x h tf (Uint32F k i) = key_text k @ AppendUint i"
| "field_text x h tf (Uint16F k i) = key_text k @ AppendUint i"
| "field_text x h tf (Uint8F k i) = key_text k @ AppendUint i"
| "field_text x h tf (RawJSONF k b) = key_text k @ b"
| "field_text x h tf (StrF k val) = key_text k @ str_lit h val"
| "field_text x h tf (StrsF k vals) = key_text k @ array_text (map (str_lit h) vals)"
| "field_text x h tf (BytesF k val) = key_text k @ str_lit h val"
| "field_text x h tf (InterfaceF k i) =
     key_text k @ (case json_Marshal x i of
                     Inl err \<Rightarrow> str_lit h (''marshaling error: '' @ err)
                   | Inr marshaled \<Rightarrow> str_lit h marshaled)"
| "field_text x h tf CallerF = caller_text x 0"

fun level_tag :: "Level \<Rightarrow> string" where
  "level_tag DebugLevel = ''debug''"
| "level_tag InfoLevel = ''info''"
| "level_tag WarnLevel = ''warn''"
| "level_tag ErrorLevel = ''error''"
| "level_tag FatalLevel = ''fatal''"

definition header_text :: "('f, 'v) ext \<Rightarrow> Logger \<Rightarrow> Level \<Rightarrow> time_Time \<Rightarrow> string" where
  "header_text x l level now =
    [CHR ''{'', quote] @ (if TimeField l = [] then ''time'' else TimeField l) @ [quote, CHR '':'']
    @ time_value x (TimeFormat l) now
    @ [CHR '','', quote] @ ''level'' @ [quote, CHR '':'', quote] @ level_tag level @ [quote]
    @ (if Caller l then caller_text x 1 else [])"

definition fields_text :: "('f, 'v) ext \<Rightarrow> bool \<Rightarrow> string \<Rightarrow> ('f, 'v) field list \<Rightarrow> string" where
  "fields_text x h tf fs = concat (map (field_text x h tf) fs)"

subsection \<open>The building blocks\<close>

lemma append_eq: "append e s = e\<lparr>buf := buf e @ s\<rparr>"
  by (simp add: append_def)

lemma key_eq: "key e b k = e\<lparr>buf := buf e @ [b, quote] @ k @ [quote, CHR '':'']\<rparr>"
  by (simp add: key_def append_def)

lemma time_eq: "time e t = e\<lparr>buf := buf e @ time_text t\<rparr>"
proof -
  have "time e t = e\<lparr>buf := buf (time e t)\<rparr>"
    by (simp add: time_def Let_def)
  moreover have "buf (time e t) = buf e @ time_text t"
    by (simp add: time_text_def time_closed new_Event_def)
  ultimately show ?thesis by simp
qed

lemma string_eq: "string e val h = e\<lparr>buf := buf e @ str_lit h val\<rparr>"
  by (simp add: string_esc str_lit_def)

lemma caller_eq: "caller x e skip = e\<lparr>buf := buf e @ caller_text x skip\<rparr>"
  by (cases "runtime_Caller x (2 + skip)")
     (auto simp: caller_def caller_text_def append_def AppendInt_def decimal.simps [of "Suc 0"]
        digit_char_def quote_def)

fun joined :: "nat \<Rightarrow> string list \<Rightarrow> string" where
  "joined i [] = []"
| "joined i (y # ys) = (if i \<noteq> 0 then '','' else []) @ y @ joined (i + 1) ys"

lemma joined_pos: "0 < i \<Longrightarrow> joined i ys = concat (map (\<lambda>y. '','' @ y) ys)"
  by (induction ys arbitrary: i) simp_all

lemma comma_join_Cons: "comma_join (y # ys) = y @ concat (map (\<lambda>y. '','' @ y) ys)"
  by (induction ys arbitrary: y) simp_all

lemma joined_zero: "joined 0 ys = comma_join ys"
  by (cases ys) (simp_all add: joined_pos comma_join_Cons)

lemma range_loop_eq:
  assumes "\<And>e a. body e a = e\<lparr>buf := buf e @ g (escapeHTML e) a\<rparr>"
  shows "range_loop body i xs e = e\<lparr>buf := buf e @ joined i (map (g (escapeHTML e)) xs)\<rparr>"
  by (induction xs arbitrary: i e) (simp_all add: assms append_def)

subsection \<open>Every call appends its text\<close>

lemma array_eq:
  assumes "\<And>e a. body e a = e\<lparr>buf := buf e @ g (escapeHTML e) a\<rparr>"
  shows "append (range_loop body 0 xs (append (key e (CHR '','') k) ''['')) '']''
     = e\<lparr>buf := buf e @ key_text k @ array_text (map (g (escapeHTML e)) xs)\<rparr>"
  by (simp add: range_loop_eq [where g = g, OF assms] append_eq key_eq joined_zero key_text_def
      array_text_def)

lemma err_eq:
  "(case err of None \<Rightarrow> append e ''null'' | Some msg \<Rightarrow> string e msg (escapeHTML e))
     = e\<lparr>buf := buf e @ err_text (escapeHTML e) err\<rparr>"
  by (cases err) (simp_all add: append_eq string_eq err_text_def)

lemma call_appends:
  "call x (Some e) f = Some (e\<lparr>buf := buf e @ field_text x (escapeHTML e) (timeFormat e) f\<rparr>)"
proof (cases f)
  case (TimeF k t)
  then show ?thesis
    by (simp add: Time_def Let_def key_eq append_eq time_eq key_text_def time_value_def)
next
  case (TimestampF now)
  then show ?thesis
    by (simp add: Timestamp_def Let_def key_eq append_eq key_text_def)
next
  case (BoolF k b)
  then show ?thesis
    by (simp add: Bool_def Let_def key_eq append_eq key_text_def)
next
  case (BoolsF k b)
  have "append (range_loop (\<lambda>e a. append e (AppendBool a)) 0 b (append (key e (CHR '','') k) ''['')) '']''
     = e\<lparr>buf := buf e @ key_text k @ array_text (map AppendBool b)\<rparr>"
    by (rule array_eq [where g = "\<lambda>h. AppendBool"]) (simp add: append_eq)
  with BoolsF show ?thesis
    by (simp add: Bools_def Let_def)
next
  case (DurF k d)
  then show ?thesis
    by (simp add: Dur_def Let_def key_eq append_eq key_text_def)
next
  case (DursF k d)
  have "append (range_loop (\<lambda>e a. let e = append e [quote]; e = append e (Duration_String x a);
           e = append e [quote] in e) 0 d (append (key e (CHR '','') k) ''['')) '']''
     = e\<lparr>buf := buf e @ key_text k @ array_text (map (\<lambda>a. [quote] @ Duration_String x a @ [quote]) d)\<rparr>"
    by (rule array_eq [where g = "\<lambda>h a. [quote] @ Duration_String x a @ [quote]"])
       (simp add: append_eq Let_def)
  with DursF show ?thesis
    by (simp add: Durs_def Let_def)
next
  case (ErrF err)
  then show ?thesis
    by (cases err)
       (simp_all add: Err_def Let_def append_eq string_eq key_text_def err_text_def quote_def)
next
  case (ErrsF k errs)
  have "append (range_loop (\<lambda>e err. case err of None \<Rightarrow> append e ''null''
           | Some msg \<Rightarrow> string e msg (escapeHTML e)) 0 errs (append (key e (CHR '','') k) ''['')) '']''
     = e\<lparr>buf := buf e @ key_text k @ array_text (map (err_text (escapeHTML e)) errs)\<rparr>"
    by (rule array_eq [where g = err_text]) (rule err_eq)
  with ErrsF show ?thesis
    by (simp add: Errs_def Let_def)
next
  case (Float64F k v)
  then show ?thesis
    by (simp add: Float64_def Let_def key_eq append_eq key_text_def)
next
  case (Floats64F k v)
  have "append (range_loop (\<lambda>e a. append e (AppendFloat x a)) 0 v (append (key e (CHR '','') k) ''['')) '']''
     = e\<lparr>buf := buf e @ key_text k @ array_text (map (AppendFloat x) v)\<rparr>"
    by (rule array_eq [where g = "\<lambda>h. AppendFloat x"]) (simp add: append_eq)
  with Floats64F show ?thesis
    by (simp add: Floats64_def Let_def)
next
  case (Floats32F k v)
  have "append (range_loop (\<lambda>e a. append e (AppendFloat x a)) 0 v (append (key e (CHR '','') k) ''['')) '']''
     = e\<lparr>buf := buf e @ key_text k @ array_text (map (AppendFloat x) v)\<rparr>"
    by (rule array_eq [where g = "\<lambda>h. AppendFloat x"]) (simp add: append_eq)
  with Floats32F show ?thesis
    by (simp add: Floats32_def Let_def)
next
  case (Int64F k i)
  then show ?thesis
    by (simp add: Int64_def Let_def key_eq append_eq key_text_def)
next
  case (Uint64F k i)
  then show ?thesis
    by (simp add: Uint64_def Let_def key_eq append_eq key_text_def)
next
  case (Float32F k v)
  then show ?thesis
    by (simp add: Float32_def Float64_def Let_def key_eq append_eq key_text_def)
next
  case (IntF k i)
  then show ?thesis
    by (simp add: Int'_def Int64_def Let_def key_eq append_eq key_text_def)
next
  case (Int32F k i)
  then show ?thesis
    by (simp add: Int32_def Int64_def Let_def key_eq append_eq key_text_def)
next
  case (Int16F k i)
  then show ?thesis
    by (simp add: Int16_def Int64_def Let_def key_eq append_eq key_text_def)
next
  case (Int8F k i)
  then show ?thesis
    by (simp add: Int8_def Int64_def Let_def key_eq append_eq key_text_def)
next
  case (Uint32F k i)
  then show ?thesis
    by (simp add: Uint32_def Uint64_def Let_def key_eq append_eq key_text_def)
next
  case (Uint16F k i)
  then show ?thesis
    by (simp add: Uint16_def Uint64_def Let_def key_eq append_eq key_text_def)
next
  case (Uint8F k i)
  then show ?thesis
    by (simp add: Uint8_def Uint64_def Let_def key_eq append_eq key_text_def)
next
  case (RawJSONF k b)
  then show ?thesis
    by (simp add: RawJSON_def Let_def key_eq append_eq key_text_def)
next
  case (StrF k val)
  then show ?thesis
    by (simp add: Str_def Let_def key_eq string_eq key_text_def)
next
  case (StrsF k vals)
  have "append (range_loop (\<lambda>e val. string e val (escapeHTML e)) 0 vals (append (key e (CHR '','') k) ''['')) '']''
     = e\<lparr>buf := buf e @ key_text k @ array_text (map (str_lit (escapeHTML e)) vals)\<rparr>"
    by (rule array_eq [where g = str_lit]) (rule string_eq)
  with StrsF show ?thesis
    by (simp add: Strs_def Let_def)
next
  case (BytesF k val)
  then show ?thesis
    by (simp add: Bytes_def Let_def key_eq string_eq key_text_def)
next
  case (InterfaceF k i)
  then show ?thesis
    by (cases "json_Marshal x i")
       (simp_all add: Interface_def Let_def key_eq string_eq key_text_def)
next
  case CallerF
  then show ?thesis
    by (simp add: Caller'_def caller_eq)
qed

lemma calls_appends:
  "calls x (Some e) fs
     = Some (e\<lparr>buf := buf e @ fields_text x (escapeHTML e) (timeFormat e) fs\<rparr>)"
proof (induction fs arbitrary: e)
  case Nil
  then show ?case by (simp add: calls_def fields_text_def)
next
  case (Cons f fs)
  have "calls x (Some e) (f # fs) = calls x (call x (Some e) f) fs"
    by (simp add: calls_def)
  then show ?case
    by (simp add: call_appends Cons.IH fields_text_def)
qed

subsection \<open>The header and the terminal calls\<close>

lemma WithLevel_active:
  assumes "\<not> level_rank level < level_rank (Level l)" "Writer l = Some wr"
  shows "WithLevel x l level now w =
    Inr (Some \<lparr>buf = header_text x l level now, fatal = (level = FatalLevel),
           escapeHTML = EscapeHTML l, timeFormat = TimeFormat l, write' = wr\<rparr>,
     snd (epool_Get w))"
proof -
  obtain e0 w0 where g: "epool_Get w = (e0, w0)" by (cases "epool_Get w") auto
  define e1 where "e1 = \<lparr>buf = [], fatal = (level = FatalLevel),
           escapeHTML = EscapeHTML l, timeFormat = TimeFormat l, write' = wr\<rparr>"
  have init: "e0\<lparr>buf := take 0 (buf e0), fatal := level = FatalLevel, escapeHTML := EscapeHTML l,
      timeFormat := TimeFormat l, write' := wr\<rparr> = e1"
    by (simp add: e1_def)
  have lev: "(case level of
                   DebugLevel \<Rightarrow> append e '',\"level\":\"debug\"''
                 | InfoLevel \<Rightarrow> append e '',\"level\":\"info\"''
                 | WarnLevel \<Rightarrow> append e '',\"level\":\"warn\"''
                 | ErrorLevel \<Rightarrow> append e '',\"level\":\"error\"''
                 | FatalLevel \<Rightarrow> append e '',\"level\":\"fatal\"'')
      = e\<lparr>buf := buf e @ [CHR '','', quote] @ ''level'' @ [quote, CHR '':'', quote] @ level_tag level @ [quote]\<rparr>"
    for e
    by (cases level) (simp_all add: append_eq quote_def)
  show ?thesis
    using assms
    by (simp add: WithLevel_def g Let_def init lev key_eq time_eq append_eq caller_eq
        header_text_def time_value_def e1_def quote_def)
qed

definition line_of :: "string \<Rightarrow> string" where
  \<comment> \<open>the closing brace and the newline after the text of a record\<close>
  "line_of body = body @ [CHR ''}'', CHR 0x0A]"

lemma Send_eq:
  "Send x (Some e) w =
    (if fatal e then
       w\<lparr>sink := sink w @ [(write' e, line_of (buf e)), (write' e, stacks x False),
                             (write' e, stacks x True)],
         exited := Some 255\<rparr>
     else w\<lparr>sink := sink w @ [(write' e, line_of (buf e))],
            epool := e\<lparr>buf := line_of (buf e)\<rparr> # epool w\<rparr>)"
  by (simp add: Send_def Let_def append_eq do_write_def epool_Put_def line_of_def)

lemma Msg_eq:
  "Msg x (Some e) msg w =
    (let line = line_of (buf e @ key_text ''message'' @ str_lit (escapeHTML e) msg) in
     if fatal e then
       w\<lparr>sink := sink w @ [(write' e, line), (write' e, stacks x False), (write' e, stacks x True)],
         exited := Some 255\<rparr>
     else w\<lparr>sink := sink w @ [(write' e, line)], epool := e\<lparr>buf := line\<rparr> # epool w\<rparr>)"
  by (simp add: Msg_def Let_def append_eq string_eq do_write_def epool_Put_def line_of_def
      key_text_def quote_def)

subsection \<open>Evaluating the escaper on ASCII text\<close>

lemma esc_Cons_ascii:
  "of_char b < (0x80 :: nat) \<Longrightarrow>
   esc (b # s) h = (if htmlSafeSet b \<or> (\<not> h \<and> safeSet b) then [b] else escape_ascii b) @ esc s h"
  by (subst esc.simps) (simp add: esc_unit_def RuneSelf_def)

definition example_event :: Event where
  \<open>example_event = \<lparr>buf = ''{"time":"T","level":"info"'', fatal = False, escapeHTML = False,
     timeFormat = [], write' = 1\<rparr>\<close>

section \<open>Generic values\<close>

text \<open>
  C10. When the marshaler succeeds, \<open>Interface\<close> appends the key and then the
  marshaler's output as one JSON string literal: a quote, the escaped output, a quote.
  The output is not copied as raw JSON.
\<close>

theorem Interface_success:
  assumes "json_Marshal x i = Inr marshaled"
  shows "Interface x (Some e) k i =
     Some (e\<lparr>buf := buf e @ [CHR '','', quote] @ k @ [quote, CHR '':'']
                 @ [quote] @ esc marshaled (escapeHTML e) @ [quote]\<rparr>)
    \<and> Interface x (Some e) k i = Some (string (key e (CHR '','') k) marshaled (escapeHTML e))"
  using assms call_appends [of x e "InterfaceF k i"]
  by (simp add: key_text_def str_lit_def key_eq string_esc)

theorem Interface_success_witness:
  \<open>Interface example_ext (Some example_event) ''k'' (Some ''3'')
     = Some (example_event\<lparr>buf := ''{"time":"T","level":"info","k":"3"''\<rparr>)
   \<and> Interface example_ext (Some example_event) ''k'' (Some ''{"a":1}'')
     = Some (example_event\<lparr>buf := ''{"time":"T","level":"info","k":"{'' @ [backslash]
           @ ''"a'' @ [backslash] @ ''":1}"''\<rparr>)\<close>
proof -
  have m: "json_Marshal example_ext (Some js) = Inr js" for js
    by (simp add: example_ext_def)
  have a: \<open>esc ''3'' (escapeHTML example_event) = ''3''\<close>
    by (simp add: esc_Cons_ascii example_event_def htmlSafeSet_def)
  have b: \<open>esc ''{"a":1}'' (escapeHTML example_event) = ''{'' @ [backslash] @ ''"a'' @ [backslash] @ ''":1}''\<close>
    by (simp add: esc_Cons_ascii example_event_def htmlSafeSet_def safeSet_def escape_ascii_def
        quote_def backslash_def)
  show ?thesis
    using Interface_success [OF m, of example_event "''k''"]
    by (simp add: a b) (simp add: example_event_def quote_def)
qed

section \<open>Bytes the escaper never writes\<close>

lemma accept_lo_high: "0x80 \<le> accept_lo b"
  by (simp add: accept_lo_def)

lemma take2: "2 \<le> length s \<Longrightarrow> take 2 s = [s ! 0, s ! 1]"
  by (cases s; cases "tl s") auto

lemma take3: "3 \<le> length s \<Longrightarrow> take 3 s = [s ! 0, s ! 1, s ! 2]"
  by (cases s; cases "tl s"; cases "tl (tl s)") auto

lemma take4: "4 \<le> length s \<Longrightarrow> take 4 s = [s ! 0, s ! 1, s ! 2, s ! 3]"
  by (cases s; cases "tl s"; cases "tl (tl s)"; cases "tl (tl (tl s))") auto

lemma rune_bytes_high:
  assumes "s \<noteq> []" "\<not> of_char (s ! 0) < (0x80 :: nat)" "DecodeRuneInString s = (r, n)"
  shows "\<forall>b \<in> set (take n s). 0x80 \<le> (of_char b :: nat)"
  using assms(1)
proof (cases rule: DecodeRune_cases)
  case ascii
  then show ?thesis using assms by simp
next
  case invalid
  then have "n = 1" using assms(3) by simp
  moreover have "take 1 s = [s ! 0]" using assms(1) by (cases s) simp_all
  ultimately show ?thesis using assms(2) by simp
next
  case two
  then have "n = 2" using assms(3) by simp
  then show ?thesis
    using two assms(2) accept_lo_high [of "of_char (s ! 0)"] by (simp add: take2)
next
  case three
  then have "n = 3" using assms(3) by simp
  then show ?thesis
    using three assms(2) accept_lo_high [of "of_char (s ! 0)"] by (simp add: take3)
next
  case four
  then have "n = 4" using assms(3) by simp
  then show ?thesis
    using four assms(2) accept_lo_high [of "of_char (s ! 0)"] by (simp add: take4)
qed

definition escape_alphabet :: string where
  \<comment> \<open>the characters the escapes are made of\<close>
  "escape_alphabet = [backslash, quote] @ ''nrtu'' @ hex"

lemma hex_nth: "k < 16 \<Longrightarrow> hex ! k \<in> set hex"
  by (rule nth_mem) (simp add: hex_def)

lemma of_char_div16: "(of_char b :: nat) div 16 < 16"
proof -
  have "(of_char b :: nat) < 256" by (rule nat_of_char_less_256)
  then show ?thesis by presburger
qed

lemma escape_ascii_alphabet: "set (escape_ascii b) \<subseteq> set escape_alphabet"
proof -
  have z: "CHR ''0'' \<in> set hex" by (simp add: hex_def)
  have "hex ! (of_char b mod 16) \<in> set hex" by (rule hex_nth) simp
  then show ?thesis
    using hex_nth [OF of_char_div16 [of b]] z
    by (auto simp: escape_ascii_def escape_alphabet_def)
qed

lemma esc_unit_avoids:
  assumes "s \<noteq> []" "of_char c < (0x80 :: nat)" "\<not> (htmlSafeSet c \<or> (\<not> h \<and> safeSet c))"
    "c \<notin> set escape_alphabet"
  shows "c \<notin> set (fst (esc_unit s h))"
proof (cases "of_char (hd s) < RuneSelf")
  case True
  show ?thesis
  proof (cases "htmlSafeSet (hd s) \<or> (\<not> h \<and> safeSet (hd s))")
    case safe: True
    then have "fst (esc_unit s h) = [hd s]" using True by (auto simp: esc_unit_def Let_def)
    then show ?thesis using safe assms(3) by auto
  next
    case False
    then have "fst (esc_unit s h) = escape_ascii (hd s)" using True by (auto simp: esc_unit_def Let_def)
    then show ?thesis using escape_ascii_alphabet [of "hd s"] assms(4) by auto
  qed
next
  case False
  obtain r n where d: "DecodeRuneInString s = (r, n)" by (cases "DecodeRuneInString s") auto
  have s0: "hd s = s ! 0" using assms(1) by (simp add: hd_conv_nth)
  have high: "\<forall>b \<in> set (take n s). 0x80 \<le> (of_char b :: nat)"
    using rune_bytes_high [OF assms(1) _ d] False by (simp add: s0 RuneSelf_def)
  have hx: "hex ! (r mod 16) \<in> set hex" by (rule hex_nth) simp
  have u: "fst (esc_unit s h) =
      (if r = RuneError \<and> n = 1 then replacement_escape
       else if r = 0x2028 \<or> r = 0x2029 then
         [backslash, CHR ''u'', CHR ''2'', CHR ''0'', CHR ''2'', hex ! (r mod 16)]
       else take n s)"
    using False d by (simp add: esc_unit_def Let_def)
  have a1: "c \<notin> set replacement_escape"
    using assms(4) by (auto simp: replacement_escape_def escape_alphabet_def hex_def)
  have a2: "c \<notin> set [backslash, CHR ''u'', CHR ''2'', CHR ''0'', CHR ''2'', hex ! (r mod 16)]"
    using assms(4) hx by (auto simp: escape_alphabet_def hex_def)
  have a3: "c \<notin> set (take n s)"
    using high assms(2) by auto
  show ?thesis
    unfolding u using a1 a2 a3 by (simp del: set_simps)
qed

lemma esc_avoids:
  assumes "of_char c < (0x80 :: nat)" "\<not> (htmlSafeSet c \<or> (\<not> h \<and> safeSet c))"
    "c \<notin> set escape_alphabet"
  shows "c \<notin> set (esc s h)"
proof (induction "length s" arbitrary: s rule: less_induct)
  case less
  show ?case
  proof (cases "s = []")
    case True
    then show ?thesis by simp
  next
    case False
    have "length (drop (snd (esc_unit s h)) s) < length s"
      using esc_unit_size_pos [OF False, of h] False by simp
    then have "c \<notin> set (esc (drop (snd (esc_unit s h)) s) h)"
      by (rule less.hyps)
    then show ?thesis
      using esc_unit_avoids [OF False assms] esc_step [OF False, of h] by simp
  qed
qed

lemma esc_no_newline: "CHR 0x0A \<notin> set (esc s h)"
  by (rule esc_avoids)
     (simp_all add: htmlSafeSet_def safeSet_def escape_alphabet_def hex_def backslash_def quote_def)

lemma esc_html_safe:
  "CHR ''<'' \<notin> set (esc s True) \<and> CHR ''>'' \<notin> set (esc s True) \<and> CHR ''&'' \<notin> set (esc s True)"
  by (intro conjI; rule esc_avoids)
     (simp_all add: htmlSafeSet_def safeSet_def escape_alphabet_def hex_def backslash_def quote_def)

section \<open>The record that is written\<close>

definition record_text ::
  "('f, 'v) ext \<Rightarrow> Logger \<Rightarrow> Level \<Rightarrow> time_Time \<Rightarrow> ('f, 'v) field list \<Rightarrow> string option \<Rightarrow> string" where
  \<comment> \<open>the object without its closing brace: the header (time, level, caller), the
     fields in call order, and the message of \<open>Msg\<close>\<close>
  "record_text x l level now fs msg =
    header_text x l level now
    @ fields_text x (EscapeHTML l) (TimeFormat l) fs
    @ (case msg of None \<Rightarrow> [] | Some m \<Rightarrow> key_text ''message'' @ str_lit (EscapeHTML l) m)"

text \<open>
  The texts an operation copies into the buffer as they are, without escaping: keys,
  raw JSON, and what the collaborators return.
\<close>

definition caller_file :: "('f, 'v) ext \<Rightarrow> nat \<Rightarrow> string list" where
  "caller_file x skip =
    (case runtime_Caller x (2 + skip) of None \<Rightarrow> [] | Some (file, line) \<Rightarrow> [after_last_slash file])"

fun copied_texts :: "('f, 'v) ext \<Rightarrow> string \<Rightarrow> ('f, 'v) field \<Rightarrow> string list" where
  "copied_texts x tf (TimeF k t) = k # (if tf = [] then [] else [AppendFormat x t tf])"
| "copied_texts x tf (TimestampF now) = []"
| "copied_texts x tf (BoolF k b) = [k]"
| "copied_texts x tf (BoolsF k b) = [k]"
| "copied_texts x tf (DurF k d) = [k, Duration_String x d]"
| "copied_texts x tf (DursF k d) = k # map (Duration_String x) d"
| "copied_texts x tf (ErrF err) = []"
| "copied_texts x tf (ErrsF k errs) = [k]"
| "copied_texts x tf (Float64F k f) = [k, AppendFloat x f]"
| "copied_texts x tf (Floats64F k f) = k # map (AppendFloat x) f"
| "copied_texts x tf (Floats32F k f) = k # map (AppendFloat x) f"
| "copied_texts x tf (Int64F k i) = [k]"
| "copied_texts x tf (Uint64F k i) = [k]"
| "copied_texts x tf (Float32F k f) = [k, AppendFloat x f]"
| "copied_texts x tf (IntF k i) = [k]"
| "copied_texts x tf (Int32F k i) = [k]"
| "copied_texts x tf (Int16F k i) = [k]"
| "copied_texts x tf (Int8F k i) = [k]"
| "copied_texts x tf (Uint32F k i) = [k]"
| "copied_texts x tf (Uint16F k i) = [k]"
| "copied_texts x tf (Uint8F k i) = [k]"
| "copied_texts x tf (RawJSONF k b) = [k, b]"
| "copied_texts x tf (StrF k val) = [k]"
| "copied_texts x tf (StrsF k vals) = [k]"
| "copied_texts x tf (BytesF k val) = [k]"
| "copied_texts x tf (InterfaceF k i) = [k]"
| "copied_texts x tf CallerF = caller_file x 0"

fun fast_times :: "string \<Rightarrow> ('f, 'v) field \<Rightarrow> time_Time list" where
  "fast_times tf (TimeF k t) = (if tf = [] then [t] else [])"
| "fast_times tf f = []"

definition header_copied :: "('f, 'v) ext \<Rightarrow> Logger \<Rightarrow> time_Time \<Rightarrow> string list" where
  "header_copied x l now =
    TimeField l # (if TimeFormat l = [] then [] else [AppendFormat x now (TimeFormat l)])
    @ (if Caller l then caller_file x 1 else [])"

definition fast_time_ok :: "time_Time \<Rightarrow> bool" where
  "fast_time_ok t = (valid_time t \<and> 0 \<le> Year t \<and> Year t \<le> 9999)"

definition no_newline :: "string \<Rightarrow> bool" where
  "no_newline s = (CHR 0x0A \<notin> set s)"

definition newline_free_inputs ::
  "('f, 'v) ext \<Rightarrow> Logger \<Rightarrow> time_Time \<Rightarrow> ('f, 'v) field list \<Rightarrow> bool" where
  "newline_free_inputs x l now fs =
    (list_all no_newline (header_copied x l now @ concat (map (copied_texts x (TimeFormat l)) fs))
     \<and> list_all fast_time_ok
          ((if TimeFormat l = [] then [now] else []) @ concat (map (fast_times (TimeFormat l)) fs)))"

definition ends_with_comma :: "string \<Rightarrow> bool" where
  "ends_with_comma s = (s \<noteq> [] \<and> last s = CHR '','')"

fun copied_last :: "('f, 'v) ext \<Rightarrow> ('f, 'v) field \<Rightarrow> string" where
  \<comment> \<open>the text copied as it is at the very end of a field, if the field ends with one\<close>
  "copied_last x (Float64F k f) = AppendFloat x f"
| "copied_last x (Float32F k f) = AppendFloat x f"
| "copied_last x (RawJSONF k b) = b"
| "copied_last x f = []"

subsection \<open>No raw newline\<close>

lemma no_newline_append [simp]: "no_newline (a @ b) = (no_newline a \<and> no_newline b)"
  by (auto simp: no_newline_def)

lemma no_newline_Cons: "no_newline (c # s) = (c \<noteq> CHR 0x0A \<and> no_newline s)"
  by (auto simp: no_newline_def)

lemma no_newline_Nil [simp]: "no_newline []"
  by (simp add: no_newline_def)

lemma no_newline_key: "no_newline k \<Longrightarrow> no_newline (key_text k)"
  by (simp add: key_text_def no_newline_Cons quote_def)

lemma no_newline_str_lit: "no_newline (str_lit h s)"
  using esc_no_newline [of s h] by (simp add: str_lit_def no_newline_Cons quote_def) (simp add: no_newline_def)

lemma digit_char_cases:
  "d < 10 \<Longrightarrow> digit_char d \<in> set ''0123456789''"
  unfolding digit_char_def by (rule nth_mem) simp

lemma no_newline_digit: "d < 10 \<Longrightarrow> digit_char d \<noteq> CHR 0x0A \<and> digit_char d \<noteq> CHR '',''"
  using digit_char_cases [of d] by auto

lemma decimal_chars: "set (decimal n) \<subseteq> set ''0123456789''"
proof (induction n rule: decimal.induct)
  case (1 n)
  show ?case
  proof (cases "n < 10")
    case True
    then show ?thesis
      using digit_char_cases [of n] by (subst decimal.simps) simp
  next
    case False
    have "digit_char (n mod 10) \<in> set ''0123456789''"
      by (rule digit_char_cases) simp
    then show ?thesis
      using False "1.IH" by (subst decimal.simps) simp
  qed
qed

lemma no_newline_decimal: "no_newline (decimal n)"
  using decimal_chars [of n] by (auto simp: no_newline_def)

lemma no_newline_AppendInt: "no_newline (AppendInt i)"
  by (simp add: AppendInt_def no_newline_decimal no_newline_Cons)

lemma no_newline_AppendUint: "no_newline (AppendUint i)"
  by (simp add: AppendUint_def no_newline_decimal)

lemma no_newline_AppendBool: "no_newline (AppendBool b)"
  by (simp add: AppendBool_def no_newline_def)

lemma no_newline_comma_join:
  "list_all no_newline ys \<Longrightarrow> no_newline (comma_join ys)"
  by (induction ys rule: comma_join.induct) (simp_all add: no_newline_Cons)

lemma no_newline_array: "list_all no_newline ys \<Longrightarrow> no_newline (array_text ys)"
  by (simp add: array_text_def no_newline_comma_join no_newline_Cons)

lemma no_newline_time_text: "fast_time_ok t \<Longrightarrow> no_newline (time_text t)"
proof -
  assume "fast_time_ok t"
  then have v: "valid_time t" "0 \<le> Year t" "Year t \<le> 9999"
    by (simp_all add: fast_time_ok_def)
  have d: "digit_char (n mod 10) \<noteq> CHR 0x0A" for n
    using no_newline_digit [of "n mod 10"] by simp
  have d1: "digit_char (nat (Year t) div 1000) \<noteq> CHR 0x0A"
    using v by (intro no_newline_digit [THEN conjunct1]) simp
  have "nat (Nanosecond t) \<le> 999999999"
    using v(1) by (auto simp: valid_time_def)
  then have "nat (Nanosecond t) div 100000000 < 10" by simp
  then have d2: "digit_char (nat (Nanosecond t) div 100000000) \<noteq> CHR 0x0A"
    by (intro no_newline_digit [THEN conjunct1])
  have d3: "digit_char (nat a div 10) \<noteq> CHR 0x0A" if "0 \<le> a" "a \<le> 99" for a
    using that by (intro no_newline_digit [THEN conjunct1]) simp
  have r: "0 \<le> Month t" "Month t \<le> 99" "0 \<le> Day t" "Day t \<le> 99" "0 \<le> Hour t" "Hour t \<le> 99"
    "0 \<le> Minute t" "Minute t \<le> 99" "0 \<le> Second t" "Second t \<le> 99"
    using v(1) by (simp_all add: valid_time_def)
  show ?thesis
    unfolding time_text_def time_digits [OF v]
    by (simp add: no_newline_Cons two_digits_def d d1 d2 d3 r new_Event_def quote_def)
qed

lemma no_newline_err: "no_newline (err_text h err)"
  by (cases err) (simp_all add: err_text_def no_newline_str_lit no_newline_Cons)

lemma no_newline_caller:
  "list_all no_newline (caller_file x skip) \<Longrightarrow> no_newline (caller_text x skip)"
  by (cases "runtime_Caller x (2 + skip)")
     (auto simp: caller_text_def caller_file_def no_newline_Cons quote_def no_newline_AppendInt)

lemma no_newline_time_value:
  "list_all no_newline (if tf = [] then [] else [AppendFormat x t tf])
   \<Longrightarrow> list_all fast_time_ok (if tf = [] then [t] else [])
   \<Longrightarrow> no_newline (time_value x tf t)"
  by (simp add: time_value_def no_newline_time_text no_newline_Cons quote_def split: if_splits)

lemma no_newline_field:
  assumes "list_all no_newline (copied_texts x tf f)" "list_all fast_time_ok (fast_times tf f)"
  shows "no_newline (field_text x h tf f)"
proof (cases f)
  case (TimeF k t)
  then show ?thesis
    using assms no_newline_time_value [of tf x t]
    by (simp add: no_newline_key split: if_splits)
next
  case (InterfaceF k i)
  then show ?thesis
    using assms by (cases "json_Marshal x i") (simp_all add: no_newline_key no_newline_str_lit)
next
  case CallerF
  then show ?thesis
    using assms by (simp add: no_newline_caller)
qed (use assms in \<open>simp_all add: no_newline_key no_newline_str_lit no_newline_AppendInt
      no_newline_AppendUint no_newline_AppendBool no_newline_err no_newline_array
      no_newline_Cons quote_def list_all_iff\<close>)

lemma no_newline_fields:
  "list_all no_newline (concat (map (copied_texts x tf) fs))
   \<Longrightarrow> list_all fast_time_ok (concat (map (fast_times tf) fs))
   \<Longrightarrow> no_newline (fields_text x h tf fs)"
  by (induction fs) (simp_all add: fields_text_def no_newline_field)

lemma no_newline_level: "no_newline (level_tag level)"
  by (cases level) (simp_all add: no_newline_Cons)

lemma no_newline_header:
  assumes "list_all no_newline (header_copied x l now)"
    "list_all fast_time_ok (if TimeFormat l = [] then [now] else [])"
  shows "no_newline (header_text x l level now)"
proof -
  have t: "no_newline (time_value x (TimeFormat l) now)"
    using assms by (intro no_newline_time_value) (simp_all add: header_copied_def split: if_splits)
  have c: "Caller l \<Longrightarrow> no_newline (caller_text x 1)"
    using assms(1) by (intro no_newline_caller) (simp add: header_copied_def split: if_splits)
  have k: "no_newline (TimeField l)"
    using assms(1) by (simp add: header_copied_def)
  show ?thesis
    using t c k
    by (simp add: header_text_def no_newline_Cons no_newline_level quote_def)
qed

lemma no_newline_record:
  assumes "newline_free_inputs x l now fs"
  shows "no_newline (record_text x l level now fs msg)"
proof -
  have "no_newline (header_text x l level now)"
    using assms by (intro no_newline_header) (simp_all add: newline_free_inputs_def)
  moreover have "no_newline (fields_text x (EscapeHTML l) (TimeFormat l) fs)"
    using assms by (intro no_newline_fields) (simp_all add: newline_free_inputs_def)
  moreover have "no_newline (case msg of None \<Rightarrow> [] | Some m \<Rightarrow> key_text ''message'' @ str_lit (EscapeHTML l) m)"
    by (cases msg) (simp_all add: no_newline_str_lit no_newline_key no_newline_Cons)
  ultimately show ?thesis
    by (simp add: record_text_def)
qed

subsection \<open>No trailing comma\<close>

lemma ends_with_comma_append:
  "ends_with_comma (a @ b) = (if b = [] then ends_with_comma a else ends_with_comma b)"
  by (simp add: ends_with_comma_def)

lemma ends_with_comma_mem: "CHR '','' \<notin> set s \<Longrightarrow> \<not> ends_with_comma s"
  by (auto simp: ends_with_comma_def dest: last_in_set)

lemma ends_with_comma_Cons:
  "ends_with_comma (a # s) = (if s = [] then a = CHR '','' else ends_with_comma s)"
  by (simp add: ends_with_comma_def)

lemma not_comma_snoc: "c \<noteq> CHR '','' \<Longrightarrow> \<not> ends_with_comma (s @ [c])"
  by (simp add: ends_with_comma_def)

lemma key_text_end: "\<not> ends_with_comma (key_text k)" "key_text k \<noteq> []"
  by (simp_all add: key_text_def ends_with_comma_def)

lemma str_lit_end: "\<not> ends_with_comma (str_lit h s)" "str_lit h s \<noteq> []"
  by (simp_all add: str_lit_def ends_with_comma_def quote_def)

lemma array_text_end: "\<not> ends_with_comma (array_text ys)" "array_text ys \<noteq> []"
  by (simp_all add: array_text_def ends_with_comma_def)

lemma decimal_end: "\<not> ends_with_comma (decimal n)" "decimal n \<noteq> []"
proof -
  show "\<not> ends_with_comma (decimal n)"
    using decimal_chars [of n] by (intro ends_with_comma_mem) auto
  show "decimal n \<noteq> []"
    using length_decimal_pos [of n] by auto
qed

lemma AppendInt_end: "\<not> ends_with_comma (AppendInt i)" "AppendInt i \<noteq> []"
  using decimal_end by (auto simp: AppendInt_def ends_with_comma_def)

lemma AppendUint_end: "\<not> ends_with_comma (AppendUint i)" "AppendUint i \<noteq> []"
  using decimal_end by (auto simp: AppendUint_def)

lemma AppendBool_end: "\<not> ends_with_comma (AppendBool b)" "AppendBool b \<noteq> []"
  by (simp_all add: AppendBool_def ends_with_comma_def)

lemma time_text_end: "\<not> ends_with_comma (time_text t)" "time_text t \<noteq> []"
  by (simp_all add: time_text_def time_closed ends_with_comma_def quote_def)

lemma time_value_end: "\<not> ends_with_comma (time_value x tf t)" "time_value x tf t \<noteq> []"
  using time_text_end by (auto simp: time_value_def ends_with_comma_def quote_def)

lemma err_text_end: "\<not> ends_with_comma (err_text h err)" "err_text h err \<noteq> []"
  using str_lit_end by (cases err; simp add: err_text_def ends_with_comma_def)+

lemma caller_text_end: "\<not> ends_with_comma (caller_text x skip)" "caller_text x skip \<noteq> []"
  by (simp_all add: caller_text_def ends_with_comma_def quote_def)

lemma field_text_end:
  "\<not> ends_with_comma (copied_last x f) \<Longrightarrow> \<not> ends_with_comma (field_text x h tf f)"
  "field_text x h tf f \<noteq> []"
proof -
  show "field_text x h tf f \<noteq> []"
    by (cases f) (simp_all add: key_text_end caller_text_end)
  assume c: "\<not> ends_with_comma (copied_last x f)"
  show "\<not> ends_with_comma (field_text x h tf f)"
  proof (cases f)
    case (InterfaceF k i)
    then show ?thesis
      by (cases "json_Marshal x i") (simp_all add: ends_with_comma_append str_lit_end)
  qed (use c in \<open>simp_all add: ends_with_comma_append key_text_end str_lit_end array_text_end
        AppendInt_end AppendUint_end AppendBool_end time_value_end err_text_end caller_text_end
        not_comma_snoc ends_with_comma_Cons quote_def\<close>)
qed

lemma fields_text_Cons:
  "fields_text x h tf (f # fs) = field_text x h tf f @ fields_text x h tf fs"
  by (simp add: fields_text_def)

lemma fields_text_end:
  "fs \<noteq> [] \<Longrightarrow> \<not> ends_with_comma (copied_last x (last fs))
   \<Longrightarrow> \<not> ends_with_comma (fields_text x h tf fs) \<and> fields_text x h tf fs \<noteq> []"
proof (induction fs)
  case Nil
  then show ?case by simp
next
  case (Cons f fs)
  show ?case
  proof (cases "fs = []")
    case True
    then show ?thesis
      using Cons.prems field_text_end(1) [of x f h tf] field_text_end(2) [of x h tf f]
      by (simp add: fields_text_def)
  next
    case False
    then have "\<not> ends_with_comma (fields_text x h tf fs) \<and> fields_text x h tf fs \<noteq> []"
      using Cons by simp
    then show ?thesis
      by (simp add: fields_text_Cons ends_with_comma_append)
  qed
qed

lemma header_text_end:
  "\<not> ends_with_comma (header_text x l level now)" "header_text x l level now \<noteq> []"
  using caller_text_end [of x 1]
  by (simp_all add: header_text_def ends_with_comma_def quote_def)

lemma record_text_end:
  assumes "msg = None \<and> fs \<noteq> [] \<longrightarrow> \<not> ends_with_comma (copied_last x (last fs))"
  shows "\<not> ends_with_comma (record_text x l level now fs msg)"
proof (cases msg)
  case (Some m)
  then show ?thesis
    by (simp add: record_text_def ends_with_comma_append str_lit_end)
next
  case None
  show ?thesis
  proof (cases "fs = []")
    case True
    then show ?thesis
      using None by (simp add: record_text_def fields_text_def header_text_end)
  next
    case False
    then show ?thesis
      using None assms fields_text_end [of fs x "EscapeHTML l" "TimeFormat l"]
      by (simp add: record_text_def ends_with_comma_append)
  qed
qed

subsection \<open>From the gate to the sink\<close>

lemma epool_Get_keeps:
  "sink (snd (epool_Get w)) = sink w" "exited (snd (epool_Get w)) = exited w"
  by (simp_all add: epool_Get_def split: list.splits)

lemma chain_Send:
  assumes "buf e0 = header_text x l level now" "fatal e0 = (level = FatalLevel)"
    "escapeHTML e0 = EscapeHTML l" "timeFormat e0 = TimeFormat l"
  shows "Send x (calls x (Some e0) fs) w0 =
    (if level = FatalLevel then
       w0\<lparr>sink := sink w0 @ [(write' e0, record_text x l level now fs None @ [CHR ''}'', CHR 0x0A]),
                               (write' e0, stacks x False), (write' e0, stacks x True)],
          exited := Some 255\<rparr>
     else w0\<lparr>sink := sink w0 @ [(write' e0, record_text x l level now fs None @ [CHR ''}'', CHR 0x0A])],
             epool := e0\<lparr>buf := record_text x l level now fs None @ [CHR ''}'', CHR 0x0A]\<rparr>
                      # epool w0\<rparr>)"
  by (simp add: calls_appends Send_eq line_of_def record_text_def assms)

lemma chain_Msg:
  assumes "buf e0 = header_text x l level now" "fatal e0 = (level = FatalLevel)"
    "escapeHTML e0 = EscapeHTML l" "timeFormat e0 = TimeFormat l"
  shows "Msg x (calls x (Some e0) fs) m w0 =
    (if level = FatalLevel then
       w0\<lparr>sink := sink w0 @ [(write' e0, record_text x l level now fs (Some m) @ [CHR ''}'', CHR 0x0A]),
                               (write' e0, stacks x False), (write' e0, stacks x True)],
          exited := Some 255\<rparr>
     else w0\<lparr>sink := sink w0 @ [(write' e0, record_text x l level now fs (Some m) @ [CHR ''}'', CHR 0x0A])],
             epool := e0\<lparr>buf := record_text x l level now fs (Some m) @ [CHR ''}'', CHR 0x0A]\<rparr>
                      # epool w0\<rparr>)"
  by (simp add: calls_appends Msg_eq line_of_def record_text_def assms Let_def)

text \<open>
  C8 (amended). Let the level pass the gate of a logger with a writer, so that
  \<open>WithLevel\<close> returns an active event. \<open>Send\<close> after any chain of calls writes the
  buffer once, as one write to the logger's sink: the header (time, level and, if
  enabled, the caller), the fields in call order, the closing brace and a newline.
  \<open>Msg\<close> writes the same with the \<^verbatim>\<open>message\<close> field, escaped, before the brace. For
  the fatal level two more writes follow, the two stack dumps, and the process exits
  with status 255; for every other level the process does not exit and the event goes
  back to the pool. The text before the brace has no raw newline when no copied text
  (key, time field name, raw JSON, text from a collaborator) has one and the fast
  formatter gets valid times with years 0 to 9999; it does not end with a comma unless
  the last call copies a text that ends with one.
\<close>

theorem record_written:
  assumes "level_rank (Level l) \<le> level_rank level" and "Writer l = Some wr"
  shows "\<exists>e0 w0. WithLevel x l level now w = Inr (Some e0, w0)
    \<and> sink (Send x (calls x (Some e0) fs) w0)
       = sink w @ [(wr, record_text x l level now fs None @ [CHR ''}'', CHR 0x0A])]
         @ (if level = FatalLevel then [(wr, stacks x False), (wr, stacks x True)] else [])
    \<and> exited (Send x (calls x (Some e0) fs) w0)
       = (if level = FatalLevel then Some 255 else exited w)
    \<and> epool (Send x (calls x (Some e0) fs) w0)
       = (if level = FatalLevel then epool w0
          else e0\<lparr>buf := record_text x l level now fs None @ [CHR ''}'', CHR 0x0A]\<rparr> # epool w0)
    \<and> sink (Msg x (calls x (Some e0) fs) m w0)
       = sink w @ [(wr, record_text x l level now fs (Some m) @ [CHR ''}'', CHR 0x0A])]
         @ (if level = FatalLevel then [(wr, stacks x False), (wr, stacks x True)] else [])
    \<and> exited (Msg x (calls x (Some e0) fs) m w0)
       = (if level = FatalLevel then Some 255 else exited w)
    \<and> epool (Msg x (calls x (Some e0) fs) m w0)
       = (if level = FatalLevel then epool w0
          else e0\<lparr>buf := record_text x l level now fs (Some m) @ [CHR ''}'', CHR 0x0A]\<rparr> # epool w0)
    \<and> record_text x l level now fs None
       = header_text x l level now
         @ concat (map (field_text x (EscapeHTML l) (TimeFormat l)) fs)
    \<and> record_text x l level now fs (Some m)
       = record_text x l level now fs None
         @ [CHR '','', quote] @ ''message'' @ [quote, CHR '':'', quote]
         @ esc m (EscapeHTML l) @ [quote]
    \<and> (newline_free_inputs x l now fs \<longrightarrow> CHR 0x0A \<notin> set (record_text x l level now fs msg))
    \<and> ((msg = None \<and> fs \<noteq> [] \<longrightarrow> \<not> ends_with_comma (copied_last x (last fs)))
        \<longrightarrow> record_text x l level now fs msg \<noteq> []
          \<and> last (record_text x l level now fs msg) \<noteq> CHR '','')"
proof -
  define e0 where "e0 = \<lparr>buf = header_text x l level now, fatal = (level = FatalLevel),
      escapeHTML = EscapeHTML l, timeFormat = TimeFormat l, write' = wr\<rparr>"
  define w0 where "w0 = snd (epool_Get w)"
  have g: "\<not> level_rank level < level_rank (Level l)" using assms(1) by simp
  have r: "WithLevel x l level now w = Inr (Some e0, w0)"
    by (simp add: WithLevel_active [OF g assms(2)] e0_def w0_def)
  have e: "buf e0 = header_text x l level now" "fatal e0 = (level = FatalLevel)"
    "escapeHTML e0 = EscapeHTML l" "timeFormat e0 = TimeFormat l"
    by (simp_all add: e0_def)
  have wr: "write' e0 = wr" by (simp add: e0_def)
  have k: "sink w0 = sink w" "exited w0 = exited w"
    by (simp_all add: w0_def epool_Get_keeps)
  have s1: "sink (Send x (calls x (Some e0) fs) w0)
       = sink w @ [(wr, record_text x l level now fs None @ [CHR ''}'', CHR 0x0A])]
         @ (if level = FatalLevel then [(wr, stacks x False), (wr, stacks x True)] else [])"
    by (simp add: chain_Send [OF e] wr k)
  have s2: "exited (Send x (calls x (Some e0) fs) w0)
       = (if level = FatalLevel then Some 255 else exited w)"
    by (simp add: chain_Send [OF e] k)
  have s3: "epool (Send x (calls x (Some e0) fs) w0)
       = (if level = FatalLevel then epool w0
          else e0\<lparr>buf := record_text x l level now fs None @ [CHR ''}'', CHR 0x0A]\<rparr> # epool w0)"
    by (simp add: chain_Send [OF e])
  have m1: "sink (Msg x (calls x (Some e0) fs) m w0)
       = sink w @ [(wr, record_text x l level now fs (Some m) @ [CHR ''}'', CHR 0x0A])]
         @ (if level = FatalLevel then [(wr, stacks x False), (wr, stacks x True)] else [])"
    by (simp add: chain_Msg [OF e] wr k)
  have m2: "exited (Msg x (calls x (Some e0) fs) m w0)
       = (if level = FatalLevel then Some 255 else exited w)"
    by (simp add: chain_Msg [OF e] k)
  have m3: "epool (Msg x (calls x (Some e0) fs) m w0)
       = (if level = FatalLevel then epool w0
          else e0\<lparr>buf := record_text x l level now fs (Some m) @ [CHR ''}'', CHR 0x0A]\<rparr> # epool w0)"
    by (simp add: chain_Msg [OF e])
  have a: "record_text x l level now fs None
       = header_text x l level now @ concat (map (field_text x (EscapeHTML l) (TimeFormat l)) fs)"
    by (simp add: record_text_def fields_text_def)
  have b: "record_text x l level now fs (Some m)
       = record_text x l level now fs None
         @ [CHR '','', quote] @ ''message'' @ [quote, CHR '':'', quote]
         @ esc m (EscapeHTML l) @ [quote]"
    by (simp add: record_text_def key_text_def str_lit_def)
  have c: "newline_free_inputs x l now fs \<longrightarrow> CHR 0x0A \<notin> set (record_text x l level now fs msg)"
    using no_newline_record [of x l now fs level msg] by (simp add: no_newline_def)
  have ne: "record_text x l level now fs msg \<noteq> []"
    using header_text_end(2) [of x l level now] by (simp add: record_text_def)
  have d: "(msg = None \<and> fs \<noteq> [] \<longrightarrow> \<not> ends_with_comma (copied_last x (last fs)))
        \<longrightarrow> record_text x l level now fs msg \<noteq> []
          \<and> last (record_text x l level now fs msg) \<noteq> CHR '',''"
    using record_text_end [of msg fs x l level now] ne by (auto simp: ends_with_comma_def)
  from r s1 s2 s3 m1 m2 m3 a b c d show ?thesis
    by blast
qed

lemma time_text_example:
  "time_text example_time = [quote] @ ''2024-02-29T23:59:58.123Z'' @ [quote]"
  by (simp add: time_text_def time_closed example_time_def new_Event_def quo_def byte_def
      char_of_def)

lemma header_text_example:
  \<open>header_text example_ext DefaultLogger InfoLevel example_time
     = ''{"time":"2024-02-29T23:59:58.123Z","level":"info"''\<close>
  \<open>header_text example_ext DefaultLogger FatalLevel example_time
     = ''{"time":"2024-02-29T23:59:58.123Z","level":"fatal"''\<close>
  by (simp_all add: header_text_def DefaultLogger_def time_value_def time_text_example quote_def)

definition example_active :: Event where
  \<comment> \<open>the event \<^verbatim>\<open>DefaultLogger.Info()\<close> returns at the example time\<close>
  \<open>example_active = \<lparr>buf = ''{"time":"2024-02-29T23:59:58.123Z","level":"info"'', fatal = False,
     escapeHTML = False, timeFormat = [], write' = 0\<rparr>\<close>

definition example_fatal :: Event where
  \<comment> \<open>the event \<^verbatim>\<open>DefaultLogger.Fatal()\<close> returns at the example time\<close>
  \<open>example_fatal = \<lparr>buf = ''{"time":"2024-02-29T23:59:58.123Z","level":"fatal"'', fatal = True,
     escapeHTML = False, timeFormat = [], write' = 0\<rparr>\<close>

lemma WithLevel_example:
  "WithLevel example_ext DefaultLogger InfoLevel example_time empty_world
     = Inr (Some example_active, empty_world)"
  "WithLevel example_ext DefaultLogger FatalLevel example_time empty_world
     = Inr (Some example_fatal, empty_world)"
proof -
  have g: "\<not> level_rank InfoLevel < level_rank (Level DefaultLogger)"
    "\<not> level_rank FatalLevel < level_rank (Level DefaultLogger)"
    "Writer DefaultLogger = Some 0"
    by (simp_all add: DefaultLogger_def)
  have p: "snd (epool_Get empty_world) = empty_world"
    by (simp add: epool_Get_def empty_world_def)
  show "WithLevel example_ext DefaultLogger InfoLevel example_time empty_world
     = Inr (Some example_active, empty_world)"
    by (simp add: WithLevel_active [OF g(1,3)] header_text_example p example_active_def)
       (simp add: DefaultLogger_def)
  show "WithLevel example_ext DefaultLogger FatalLevel example_time empty_world
     = Inr (Some example_fatal, empty_world)"
    by (simp add: WithLevel_active [OF g(2,3)] header_text_example p example_fatal_def)
       (simp add: DefaultLogger_def)
qed

theorem record_written_witness:
  \<open>WithLevel example_ext DefaultLogger InfoLevel example_time empty_world
     = Inr (Some example_active, empty_world)
   \<and> sink (Msg example_ext
        (calls example_ext (Some example_active) [StrF ''user'' ''ann'', IntF ''retries'' 3])
        ''login ok'' empty_world)
     = [(0, ''{"time":"2024-02-29T23:59:58.123Z","level":"info","user":"ann","retries":3,"message":"login ok"}''
           @ [CHR 0x0A])]
   \<and> exited (Msg example_ext
        (calls example_ext (Some example_active) [StrF ''user'' ''ann'', IntF ''retries'' 3])
        ''login ok'' empty_world) = None
   \<and> CHR 0x0A \<notin> set (record_text example_ext DefaultLogger InfoLevel example_time
         [StrF ''user'' ''ann'', IntF ''retries'' 3] (Some ''login ok''))
   \<and> last (record_text example_ext DefaultLogger InfoLevel example_time
         [StrF ''user'' ''ann'', IntF ''retries'' 3] (Some ''login ok'')) \<noteq> CHR '',''
   \<and> WithLevel example_ext DefaultLogger FatalLevel example_time empty_world
     = Inr (Some example_fatal, empty_world)
   \<and> sink (Send example_ext (calls example_ext (Some example_fatal) []) empty_world)
     = [(0, ''{"time":"2024-02-29T23:59:58.123Z","level":"fatal"}'' @ [CHR 0x0A]),
        (0, stacks example_ext False), (0, stacks example_ext True)]
   \<and> exited (Send example_ext (calls example_ext (Some example_fatal) []) empty_world) = Some 255\<close>
proof -
  let ?fs = "[StrF ''user'' ''ann'', IntF ''retries'' 3] :: (nat, string option) field list"
  let ?no = "[] :: (nat, string option) field list"
  have g: "level_rank (Level DefaultLogger) \<le> level_rank InfoLevel"
    "level_rank (Level DefaultLogger) \<le> level_rank FatalLevel"
    "Writer DefaultLogger = Some 0"
    by (simp_all add: DefaultLogger_def)
  have n: "newline_free_inputs example_ext DefaultLogger example_time ?fs"
    by (simp add: newline_free_inputs_def header_copied_def DefaultLogger_def no_newline_def
        fast_time_ok_def valid_time_def example_time_def)
  have e: \<open>esc ''ann'' False = ''ann''\<close> \<open>esc ''login ok'' False = ''login ok''\<close>
    by (simp_all add: esc_Cons_ascii htmlSafeSet_def)
  have r: \<open>record_text example_ext DefaultLogger InfoLevel example_time ?fs (Some ''login ok'')
      = ''{"time":"2024-02-29T23:59:58.123Z","level":"info","user":"ann","retries":3,"message":"login ok"''\<close>
    by (simp add: record_text_def header_text_example fields_text_def key_text_def str_lit_def e
        AppendInt_def decimal.simps [of 3] digit_char_def quote_def)
       (simp add: DefaultLogger_def e)
  have rf: \<open>record_text example_ext DefaultLogger FatalLevel example_time ?no None
      = ''{"time":"2024-02-29T23:59:58.123Z","level":"fatal"''\<close>
    by (simp add: record_text_def header_text_example fields_text_def)
  from record_written [OF g(1,3), of example_ext example_time empty_world ?fs "''login ok''"
      "Some ''login ok''"]
  obtain e0 w0 where t:
    "WithLevel example_ext DefaultLogger InfoLevel example_time empty_world = Inr (Some e0, w0)"
    "sink (Msg example_ext (calls example_ext (Some e0) ?fs) ''login ok'' w0)
       = sink empty_world @ [(0, record_text example_ext DefaultLogger InfoLevel example_time ?fs
            (Some ''login ok'') @ [CHR ''}'', CHR 0x0A])]
         @ (if InfoLevel = FatalLevel
            then [(0, stacks example_ext False), (0, stacks example_ext True)] else [])"
    "exited (Msg example_ext (calls example_ext (Some e0) ?fs) ''login ok'' w0)
       = (if InfoLevel = FatalLevel then Some 255 else exited empty_world)"
    "newline_free_inputs example_ext DefaultLogger example_time ?fs
       \<longrightarrow> CHR 0x0A \<notin> set (record_text example_ext DefaultLogger InfoLevel example_time ?fs
             (Some ''login ok''))"
    "(Some ''login ok'' = None \<and> ?fs \<noteq> [] \<longrightarrow> \<not> ends_with_comma (copied_last example_ext (last ?fs)))
       \<longrightarrow> record_text example_ext DefaultLogger InfoLevel example_time ?fs (Some ''login ok'') \<noteq> []
         \<and> last (record_text example_ext DefaultLogger InfoLevel example_time ?fs
              (Some ''login ok'')) \<noteq> CHR '',''"
    by blast
  have i: "e0 = example_active" "w0 = empty_world"
    using t(1) WithLevel_example(1) by simp_all
  have c1: \<open>sink (Msg example_ext (calls example_ext (Some example_active) ?fs) ''login ok''
        empty_world)
     = [(0, ''{"time":"2024-02-29T23:59:58.123Z","level":"info","user":"ann","retries":3,"message":"login ok"}''
           @ [CHR 0x0A])]\<close>
    using t(2) unfolding i r by (simp add: empty_world_def)
  have c2: "exited (Msg example_ext (calls example_ext (Some example_active) ?fs) ''login ok''
        empty_world) = None"
    using t(3) unfolding i by (simp add: empty_world_def)
  have c3: "CHR 0x0A \<notin> set (record_text example_ext DefaultLogger InfoLevel example_time ?fs
      (Some ''login ok''))"
    using t(4) n by blast
  have c4: "last (record_text example_ext DefaultLogger InfoLevel example_time ?fs
      (Some ''login ok'')) \<noteq> CHR '',''"
    using t(5) by simp
  from record_written [OF g(2,3), of example_ext example_time empty_world ?no]
  obtain e1 w1 where u:
    "WithLevel example_ext DefaultLogger FatalLevel example_time empty_world = Inr (Some e1, w1)"
    "sink (Send example_ext (calls example_ext (Some e1) ?no) w1)
       = sink empty_world @ [(0, record_text example_ext DefaultLogger FatalLevel example_time ?no
            None @ [CHR ''}'', CHR 0x0A])]
         @ (if FatalLevel = FatalLevel
            then [(0, stacks example_ext False), (0, stacks example_ext True)] else [])"
    "exited (Send example_ext (calls example_ext (Some e1) ?no) w1)
       = (if FatalLevel = FatalLevel then Some 255 else exited empty_world)"
    by blast
  have j: "e1 = example_fatal" "w1 = empty_world"
    using u(1) WithLevel_example(2) by simp_all
  have c5: \<open>sink (Send example_ext (calls example_ext (Some example_fatal) ?no) empty_world)
     = [(0, ''{"time":"2024-02-29T23:59:58.123Z","level":"fatal"}'' @ [CHR 0x0A]),
        (0, stacks example_ext False), (0, stacks example_ext True)]\<close>
    using u(2) unfolding j rf by (simp add: empty_world_def)
  have c6: "exited (Send example_ext (calls example_ext (Some example_fatal) ?no) empty_world)
      = Some 255"
    using u(3) unfolding j by simp
  from WithLevel_example c1 c2 c3 c4 c5 c6 show ?thesis by blast
qed

text \<open>
  C8 as stated fails where it excludes raw newlines: a key is copied as it is, so a key
  with a newline puts a raw newline inside the object.
\<close>

theorem record_with_raw_newline:
  \<open>WithLevel example_ext DefaultLogger InfoLevel example_time empty_world
     = Inr (Some example_active, empty_world)
   \<and> sink (Send example_ext
        (calls example_ext (Some example_active) [StrF (''a'' @ [CHR 0x0A] @ ''b'') ''v''])
        empty_world)
     = [(0, ''{"time":"2024-02-29T23:59:58.123Z","level":"info","a'' @ [CHR 0x0A] @ ''b":"v"}''
           @ [CHR 0x0A])]
   \<and> CHR 0x0A \<in> set (butlast (''{"time":"2024-02-29T23:59:58.123Z","level":"info","a''
           @ [CHR 0x0A] @ ''b":"v"}'' @ [CHR 0x0A]))\<close>
proof -
  let ?fs = "[StrF (''a'' @ [CHR 0x0A] @ ''b'') ''v''] :: (nat, string option) field list"
  have e: \<open>esc ''v'' False = ''v''\<close>
    by (simp add: esc_Cons_ascii htmlSafeSet_def)
  have h: "buf example_active = header_text example_ext DefaultLogger InfoLevel example_time"
    "fatal example_active = (InfoLevel = FatalLevel)"
    "escapeHTML example_active = EscapeHTML DefaultLogger"
    "timeFormat example_active = TimeFormat DefaultLogger"
    by (simp_all add: example_active_def header_text_example)
       (simp_all add: DefaultLogger_def)
  have r: \<open>record_text example_ext DefaultLogger InfoLevel example_time ?fs None
      = ''{"time":"2024-02-29T23:59:58.123Z","level":"info","a'' @ [CHR 0x0A] @ ''b":"v"''\<close>
    by (simp add: record_text_def header_text_example fields_text_def key_text_def str_lit_def
        quote_def)
       (simp add: DefaultLogger_def e)
  have s: \<open>sink (Send example_ext (calls example_ext (Some example_active) ?fs) empty_world)
     = [(0, ''{"time":"2024-02-29T23:59:58.123Z","level":"info","a'' @ [CHR 0x0A] @ ''b":"v"}''
           @ [CHR 0x0A])]\<close>
    unfolding chain_Send [OF h] r by (simp add: empty_world_def example_active_def)
  show ?thesis
    using s WithLevel_example(1) by simp
qed

section \<open>Decoding a JSON string literal\<close>

text \<open>
  The decoder the escaper is compared with: it reads a JSON string literal as RFC 8259
  defines it and returns the bytes of the string it stands for. A literal starts and ends
  with a quote; between them a backslash introduces one of the escapes
  \<^verbatim>\<open>\" \\ \/ \b \f \n \r \t\<close> or \<^verbatim>\<open>\u\<close> with four hexadecimal digits, an unescaped
  quote or control byte is an error, and every other byte stands for itself. A
  \<^verbatim>\<open>\u\<close> escape stands for the UTF-8 encoding of its code point; two escapes that form
  a surrogate pair stand for one code point, and a surrogate on its own for U+FFFD, as in
  Go's decoder.
\<close>

definition hex_val :: "char \<Rightarrow> nat option" where
  "hex_val c =
    (let n = (of_char c :: nat) in
     if 48 \<le> n \<and> n \<le> 57 then Some (n - 48)
     else if 97 \<le> n \<and> n \<le> 102 then Some (n - 87)
     else if 65 \<le> n \<and> n \<le> 70 then Some (n - 55)
     else None)"

definition hex4 :: "char \<Rightarrow> char \<Rightarrow> char \<Rightarrow> char \<Rightarrow> nat option" where
  "hex4 a b c d =
    (case (hex_val a, hex_val b, hex_val c, hex_val d) of
       (Some p, Some q, Some r, Some s) \<Rightarrow> Some (((p * 16 + q) * 16 + r) * 16 + s)
     | _ \<Rightarrow> None)"

definition utf8_encode :: "nat \<Rightarrow> string" where
  "utf8_encode r =
    (if r < 0x80 then [char_of r]
     else if r < 0x800 then [char_of (0xC0 + r div 0x40), char_of (0x80 + r mod 0x40)]
     else if (0xD800 \<le> r \<and> r < 0xE000) \<or> 0x10FFFF < r then [CHR 0xEF, CHR 0xBF, CHR 0xBD]
     else if r < 0x10000 then
       [char_of (0xE0 + r div 0x1000), char_of (0x80 + r div 0x40 mod 0x40),
        char_of (0x80 + r mod 0x40)]
     else
       [char_of (0xF0 + r div 0x40000), char_of (0x80 + r div 0x1000 mod 0x40),
        char_of (0x80 + r div 0x40 mod 0x40), char_of (0x80 + r mod 0x40)])"

definition simple_escape :: "char \<Rightarrow> char option" where
  "simple_escape e =
    (if e = quote \<or> e = backslash \<or> e = CHR ''/'' then Some e
     else if e = CHR ''b'' then Some (CHR 0x08)
     else if e = CHR ''f'' then Some (CHR 0x0C)
     else if e = CHR ''n'' then Some (CHR 0x0A)
     else if e = CHR ''r'' then Some (CHR 0x0D)
     else if e = CHR ''t'' then Some (CHR 0x09)
     else None)"

definition low_surrogate_escape :: "string \<Rightarrow> nat option" where
  \<comment> \<open>the low surrogate, when the text starts with the escape of one\<close>
  "low_surrogate_escape s =
    (case s of
       b # u # l1 # l2 # l3 # l4 # _ \<Rightarrow>
         if b = backslash \<and> u = CHR ''u'' then
           (case hex4 l1 l2 l3 l4 of
              Some lo \<Rightarrow> if 0xDC00 \<le> lo \<and> lo < 0xE000 then Some lo else None
            | None \<Rightarrow> None)
         else None
     | _ \<Rightarrow> None)"

fun unquote_body :: "string \<Rightarrow> string option" where
  "unquote_body [] = Some []"
| "unquote_body (c # cs) =
    (if c = backslash then
       (case cs of
          [] \<Rightarrow> None
        | e # r \<Rightarrow>
            if e = CHR ''u'' then
              (case r of
                 h1 # h2 # h3 # h4 # r' \<Rightarrow>
                   (case hex4 h1 h2 h3 h4 of
                      None \<Rightarrow> None
                    | Some cp \<Rightarrow>
                        if 0xD800 \<le> cp \<and> cp < 0xDC00 then
                          (case low_surrogate_escape r' of
                             Some lo \<Rightarrow>
                               (case r' of
                                  _ # _ # _ # _ # _ # _ # r'' \<Rightarrow>
                                    map_option
                                      ((@) (utf8_encode (0x10000 + (cp - 0xD800) * 0x400 + (lo - 0xDC00))))
                                      (unquote_body r'')
                                | _ \<Rightarrow> None)
                           | None \<Rightarrow> map_option ((@) (utf8_encode cp)) (unquote_body r'))
                        else map_option ((@) (utf8_encode cp)) (unquote_body r'))
               | _ \<Rightarrow> None)
            else
              (case simple_escape e of
                 None \<Rightarrow> None
               | Some ch \<Rightarrow> map_option ((#) ch) (unquote_body r)))
     else if c = quote \<or> (of_char c :: nat) < 0x20 then None
     else map_option ((#) c) (unquote_body cs))"

definition json_unquote :: "string \<Rightarrow> string option" where
  "json_unquote s =
    (case s of
       [] \<Rightarrow> None
     | q # rest \<Rightarrow>
         if q = quote \<and> rest \<noteq> [] \<and> last rest = quote then unquote_body (butlast rest)
         else None)"

text \<open>
  A string is valid UTF-8 when the scanner never meets an invalid encoding (Go's
  \<^verbatim>\<open>utf8.ValidString\<close>).
\<close>

function valid_utf8 :: "string \<Rightarrow> bool" where
  "valid_utf8 s =
    (if s = [] then True
     else if DecodeRuneInString s = (RuneError, 1) then False
     else valid_utf8 (drop (snd (DecodeRuneInString s)) s))"
  by pat_completeness auto
termination
  by (relation "measure length") (use DecodeRune_size_pos in \<open>auto simp: Suc_le_eq\<close>)

declare valid_utf8.simps [simp del]

subsection \<open>Decoding what the escaper writes\<close>

lemma safe_byte_plain:
  assumes "htmlSafeSet b \<or> safeSet b"
  shows "b \<noteq> backslash \<and> b \<noteq> quote \<and> \<not> (of_char b :: nat) < 0x20"
  using assms by (auto simp: htmlSafeSet_def safeSet_def backslash_def quote_def)

lemma unquote_plain:
  "b \<noteq> backslash \<Longrightarrow> b \<noteq> quote \<Longrightarrow> \<not> (of_char b :: nat) < 0x20
   \<Longrightarrow> unquote_body (b # rest) = map_option ((#) b) (unquote_body rest)"
  by simp

lemma unquote_high_bytes:
  "\<forall>b \<in> set bs. 0x80 \<le> (of_char b :: nat)
   \<Longrightarrow> unquote_body (bs @ rest) = map_option ((@) bs) (unquote_body rest)"
proof (induction bs)
  case Nil
  then show ?case by (simp add: option.map_ident)
next
  case (Cons b bs)
  then have h: "0x80 \<le> (of_char b :: nat)" by simp
  have p: "b \<noteq> backslash" "b \<noteq> quote" "\<not> (of_char b :: nat) < 0x20"
    using h by (auto simp: backslash_def quote_def)
  have "unquote_body ((b # bs) @ rest) = map_option ((#) b) (unquote_body (bs @ rest))"
    using unquote_plain [OF p] by simp
  then show ?case
    using Cons by (simp add: option.map_comp comp_def)
qed

lemma unquote_simple:
  "simple_escape e = Some ch \<Longrightarrow> e \<noteq> CHR ''u''
   \<Longrightarrow> unquote_body (backslash # e # rest) = map_option ((#) ch) (unquote_body rest)"
  by simp

lemma unquote_u:
  "hex4 h1 h2 h3 h4 = Some cp \<Longrightarrow> \<not> (0xD800 \<le> cp \<and> cp < 0xDC00)
   \<Longrightarrow> unquote_body (backslash # CHR ''u'' # h1 # h2 # h3 # h4 # rest)
       = map_option ((@) (utf8_encode cp)) (unquote_body rest)"
  by auto

lemma append_single: "(@) [b] = (#) b"
  by auto

lemma hex_val_hex: "k < 16 \<Longrightarrow> hex_val (hex ! k) = Some k"
proof -
  assume "k < 16"
  then have "k = 0 \<or> k = 1 \<or> k = 2 \<or> k = 3 \<or> k = 4 \<or> k = 5 \<or> k = 6 \<or> k = 7 \<or> k = 8 \<or> k = 9
      \<or> k = 10 \<or> k = 11 \<or> k = 12 \<or> k = 13 \<or> k = 14 \<or> k = 15"
    by arith
  then show ?thesis
    by (elim disjE) (simp_all add: hex_def hex_val_def)
qed

lemma hex4_byte:
  "v < 256 \<Longrightarrow> hex4 (CHR ''0'') (CHR ''0'') (hex ! (v div 16)) (hex ! (v mod 16)) = Some v"
proof -
  assume "v < 256"
  then have "v div 16 < 16" by presburger
  then have a: "hex_val (hex ! (v div 16)) = Some (v div 16)" by (rule hex_val_hex)
  have b: "hex_val (hex ! (v mod 16)) = Some (v mod 16)" by (rule hex_val_hex) simp
  have z: "hex_val (CHR ''0'') = Some 0" by (simp add: hex_val_def)
  show ?thesis
    by (simp add: hex4_def a b z)
qed

lemma unquote_escape_ascii:
  assumes "(of_char b :: nat) < 0x80"
  shows "unquote_body (escape_ascii b @ rest) = map_option ((#) b) (unquote_body rest)"
proof -
  consider "b = backslash \<or> b = quote" | "b = CHR 0x0A" | "b = CHR 0x0D" | "b = CHR 0x09"
    | "b \<noteq> backslash" "b \<noteq> quote" "b \<noteq> CHR 0x0A" "b \<noteq> CHR 0x0D" "b \<noteq> CHR 0x09"
    by blast
  then show ?thesis
  proof cases
    case 1
    then have "simple_escape b = Some b" "b \<noteq> CHR ''u''"
      by (auto simp: simple_escape_def backslash_def quote_def)
    then show ?thesis
      using 1 unquote_simple [of b b rest] by (auto simp: escape_ascii_def)
  next
    case 2
    have "simple_escape (CHR ''n'') = Some (CHR 0x0A)"
      by (simp add: simple_escape_def backslash_def quote_def)
    then show ?thesis
      using 2 unquote_simple [of "CHR ''n''" "CHR 0x0A" rest]
      by (simp add: escape_ascii_def backslash_def quote_def)
  next
    case 3
    have "simple_escape (CHR ''r'') = Some (CHR 0x0D)"
      by (simp add: simple_escape_def backslash_def quote_def)
    then show ?thesis
      using 3 unquote_simple [of "CHR ''r''" "CHR 0x0D" rest]
      by (simp add: escape_ascii_def backslash_def quote_def)
  next
    case 4
    have "simple_escape (CHR ''t'') = Some (CHR 0x09)"
      by (simp add: simple_escape_def backslash_def quote_def)
    then show ?thesis
      using 4 unquote_simple [of "CHR ''t''" "CHR 0x09" rest]
      by (simp add: escape_ascii_def backslash_def quote_def)
  next
    case 5
    let ?v = "of_char b :: nat"
    have e: "escape_ascii b = [backslash, CHR ''u'', CHR ''0'', CHR ''0'', hex ! (?v div 16), hex ! (?v mod 16)]"
      using 5 by (simp add: escape_ascii_def)
    have h: "hex4 (CHR ''0'') (CHR ''0'') (hex ! (?v div 16)) (hex ! (?v mod 16)) = Some ?v"
      by (rule hex4_byte) simp
    have u: "utf8_encode ?v = [b]"
      using assms by (simp add: utf8_encode_def)
    have "\<not> (0xD800 \<le> ?v \<and> ?v < 0xDC00)" using assms by simp
    from unquote_u [OF h this, of rest] show ?thesis
      by (simp only: e u append_single append_Cons append_Nil)
  qed
qed

lemma mod_offset:
  fixes a :: nat
  assumes "q * m \<le> a" "a < q * m + m"
  shows "a mod m = a - q * m"
proof -
  define k where "k = a - q * m"
  have "a = q * m + k" "k < m" using assms by (simp_all add: k_def)
  then have "a mod m = k" by simp
  then show ?thesis by (simp add: k_def)
qed

lemma split_digits:
  fixes q :: nat
  shows "q * m + r = x \<Longrightarrow> r < m \<Longrightarrow> q = x div m \<and> r = x mod m"
  by auto

lemma char_of_eq: "of_char c = (n :: nat) \<Longrightarrow> char_of n = c"
  by auto

lemma separator_bytes:
  assumes "s \<noteq> []" "DecodeRuneInString s = (c, n)" "c = 0x2028 \<or> c = 0x2029"
  shows "n = 3 \<and> take 3 s = utf8_encode c"
  using assms(1)
proof (cases rule: DecodeRune_cases)
  case ascii
  then show ?thesis using assms by auto
next
  case invalid
  then show ?thesis using assms by (auto simp: RuneError_def)
next
  case two
  have "(of_char (s ! 0) mod 0x20) * 0x40 + of_char (s ! 1) mod 0x40 < (0x800 :: nat)"
  proof -
    have "of_char (s ! 0) mod 0x20 < (0x20 :: nat)" "of_char (s ! 1) mod 0x40 < (0x40 :: nat)"
      by simp_all
    then show ?thesis by linarith
  qed
  then show ?thesis using two assms by auto
next
  case three
  let ?a = "of_char (s ! 0) :: nat" and ?b = "of_char (s ! 1) :: nat" and ?c = "of_char (s ! 2) :: nat"
  have r: "(?a mod 0x10) * 0x1000 + (?b mod 0x40) * 0x40 + ?c mod 0x40 = c" "n = 3"
    using three assms by auto
  have a: "0xE0 \<le> ?a" "?a < 0xF0"
    using three(1) by (auto simp: first_size_def split: if_splits)
  have b: "0x80 \<le> ?b" "?b \<le> 0xBF"
    using three(4,5) accept_lo_high [of ?a] by (auto simp: accept_hi_def split: if_splits)
  have c: "0x80 \<le> ?c" "?c \<le> 0xBF" using three by auto
  have am: "?a mod 0x10 = ?a - 0xE0" using mod_offset [of 14 16 ?a] a by simp
  have bm: "?b mod 0x40 = ?b - 0x80" using mod_offset [of 2 64 ?b] b by simp
  have cm: "?c mod 0x40 = ?c - 0x80" using mod_offset [of 2 64 ?c] c by simp
  define ka kb kc where "ka = ?a - 0xE0" and "kb = ?b - 0x80" and "kc = ?c - 0x80"
  have k: "ka < 16" "kb < 64" "kc < 64" "?a = 0xE0 + ka" "?b = 0x80 + kb" "?c = 0x80 + kc"
    using a b c by (simp_all add: ka_def kb_def kc_def)
  have eq: "ka * 0x1000 + (kb * 0x40 + kc) = c"
    using r(1) unfolding am bm cm ka_def kb_def kc_def by simp
  have "kb * 0x40 + kc < 0x1000" using k(2,3) by linarith
  from split_digits [OF eq this] have d1: "ka = c div 0x1000" "kb * 0x40 + kc = c mod 0x1000"
    by simp_all
  from split_digits [OF d1(2) k(3)] have d2: "kb = c mod 0x1000 div 0x40" "kc = c mod 0x1000 mod 0x40"
    by simp_all
  have v: "?a = 0xE2" "?b = 0x80" "?c = (if c = 0x2028 then 0xA8 else 0xA9)"
    using assms(3) k(4,5,6) d1(1) d2 by auto
  have ch: "s ! 0 = CHR 0xE2" "s ! 1 = CHR 0x80" "s ! 2 = (if c = 0x2028 then CHR 0xA8 else CHR 0xA9)"
  proof -
    have "?a = of_char (CHR 0xE2)" using v(1) by simp
    then show "s ! 0 = CHR 0xE2" by (simp only: of_char_eq_iff)
    have "?b = of_char (CHR 0x80)" using v(2) by simp
    then show "s ! 1 = CHR 0x80" by (simp only: of_char_eq_iff)
    have "?c = of_char (if c = 0x2028 then CHR 0xA8 else CHR 0xA9)" using v(3) by simp
    then show "s ! 2 = (if c = 0x2028 then CHR 0xA8 else CHR 0xA9)" by (simp only: of_char_eq_iff)
  qed
  have "utf8_encode c = [CHR 0xE2, CHR 0x80, if c = 0x2028 then CHR 0xA8 else CHR 0xA9]"
    using assms(3) char_of_eq [of "CHR 0xE2" 226] char_of_eq [of "CHR 0x80" 128]
      char_of_eq [of "CHR 0xA8" 168] char_of_eq [of "CHR 0xA9" 169]
    by (auto simp: utf8_encode_def)
  then show ?thesis
    using r(2) three(2) ch by (simp add: take3)
next
  case four
  let ?a = "of_char (s ! 0) :: nat" and ?b = "of_char (s ! 1) :: nat"
  have a: "0xF0 \<le> ?a" "?a < 0xF5"
    using four(1) by (auto simp: first_size_def split: if_splits)
  have "0x10000 \<le> (?a mod 0x08) * 0x40000 + (?b mod 0x40) * 0x1000"
  proof (cases "?a = 0xF0")
    case True
    then have "0x90 \<le> ?b" "?b \<le> 0xBF" using four(4,5) by (simp_all add: accept_lo_def accept_hi_def)
    then have "0x10 \<le> ?b mod 0x40" using mod_offset [of 2 64 ?b] by simp
    then show ?thesis by simp
  next
    case False
    then have "1 \<le> ?a mod 0x08" using a mod_offset [of 30 8 ?a] by simp
    then show ?thesis by simp
  qed
  then show ?thesis using four assms by auto
qed

lemma unquote_unit:
  assumes "s \<noteq> []" "DecodeRuneInString s \<noteq> (RuneError, 1)"
  shows "unquote_body (fst (esc_unit s h) @ rest)
     = map_option ((@) (take (snd (esc_unit s h)) s)) (unquote_body rest)"
proof (cases "of_char (hd s) < RuneSelf")
  case True
  have t1: "take (Suc 0) s = [hd s]" using assms(1) by (cases s) simp_all
  show ?thesis
  proof (cases "htmlSafeSet (hd s) \<or> (\<not> h \<and> safeSet (hd s))")
    case safe: True
    then have u: "esc_unit s h = ([hd s], 1)" using True by (auto simp: esc_unit_def Let_def)
    have "htmlSafeSet (hd s) \<or> safeSet (hd s)" using safe by auto
    from safe_byte_plain [OF this] show ?thesis
      by (simp add: u t1 append_single)
  next
    case False
    then have u: "esc_unit s h = (escape_ascii (hd s), 1)" using True by (auto simp: esc_unit_def Let_def)
    have "(of_char (hd s) :: nat) < 0x80" using True by (simp add: RuneSelf_def)
    from unquote_escape_ascii [OF this, of rest] show ?thesis
      by (simp add: u t1 append_single)
  qed
next
  case False
  obtain c n where d: "DecodeRuneInString s = (c, n)" by (cases "DecodeRuneInString s") auto
  have s0: "hd s = s ! 0" using assms(1) by (simp add: hd_conv_nth)
  have nv: "\<not> (c = RuneError \<and> n = 1)" using assms(2) d by simp
  show ?thesis
  proof (cases "c = 0x2028 \<or> c = 0x2029")
    case sep: True
    have u: "esc_unit s h = ([backslash, CHR ''u'', CHR ''2'', CHR ''0'', CHR ''2'', hex ! (c mod 16)], n)"
      using False d nv sep by (auto simp: esc_unit_def Let_def RuneError_def)
    have b: "n = 3" "take 3 s = utf8_encode c"
      using separator_bytes [OF assms(1) d sep] by simp_all
    have hx: "hex4 (CHR ''2'') (CHR ''0'') (CHR ''2'') (hex ! (c mod 16)) = Some c"
      using sep by (auto simp: hex4_def hex_val_def hex_def)
    have ns: "\<not> (0xD800 \<le> c \<and> c < 0xDC00)" using sep by auto
    from unquote_u [OF hx ns, of rest] show ?thesis
      by (simp add: u b)
  next
    case other: False
    have u: "esc_unit s h = (take n s, n)"
      using False d nv other by (auto simp: esc_unit_def Let_def)
    have "\<forall>b \<in> set (take n s). 0x80 \<le> (of_char b :: nat)"
      using rune_bytes_high [OF assms(1) _ d] False by (simp add: s0 RuneSelf_def)
    from unquote_high_bytes [OF this, of rest] show ?thesis
      by (simp add: u)
  qed
qed

lemma unquote_esc: "valid_utf8 s \<Longrightarrow> unquote_body (esc s h) = Some s"
proof (induction "length s" arbitrary: s rule: less_induct)
  case less
  show ?case
  proof (cases "s = []")
    case True
    then show ?thesis by simp
  next
    case False
    let ?n = "snd (esc_unit s h)"
    from less.prems False have v: "DecodeRuneInString s \<noteq> (RuneError, 1)"
      and r: "valid_utf8 (drop (snd (DecodeRuneInString s)) s)"
      by (subst (asm) valid_utf8.simps; simp split: if_splits)+
    have n: "?n = snd (DecodeRuneInString s)" by (rule esc_unit_snd [OF False])
    have "length (drop ?n s) < length s"
      using esc_unit_size_pos [OF False, of h] False by simp
    then have "unquote_body (esc (drop ?n s) h) = Some (drop ?n s)"
      using r by (intro less.hyps) (simp_all add: n)
    then show ?thesis
      using unquote_unit [OF False v, of h "esc (drop ?n s) h"] esc_step [OF False, of h]
      by simp
  qed
qed

lemma valid_utf8_Nil: "valid_utf8 []"
  by (subst valid_utf8.simps) simp

lemma valid_utf8_ascii: "(of_char b :: nat) < 0x80 \<Longrightarrow> valid_utf8 (b # s) = valid_utf8 s"
  by (subst valid_utf8.simps) (simp add: DecodeRune_ascii RuneError_def)

lemma json_unquote_quoted: "json_unquote ([quote] @ body @ [quote]) = unquote_body body"
  by (simp add: json_unquote_def)

subsection \<open>ASCII bytes are always reached\<close>

lemma scan_reaches_ascii:
  "k < length s \<Longrightarrow> of_char (s ! k) < (0x80 :: nat) \<Longrightarrow> scan_reaches s k"
proof (induction s k rule: scan_reaches.induct)
  case (1 s k)
  let ?n = "snd (DecodeRuneInString s)"
  show ?case
  proof (cases "k = 0")
    case True
    then show ?thesis by (subst scan_reaches.simps) simp
  next
    case False
    have ne: "s \<noteq> []" using "1.prems"(1) by auto
    obtain r where d: "DecodeRuneInString s = (r, ?n)" by (cases "DecodeRuneInString s") auto
    have nk: "\<not> k < ?n"
    proof
      assume less: "k < ?n"
      show False
      proof (cases "of_char (s ! 0) < (0x80 :: nat)")
        case True
        then have "?n = 1" using DecodeRune_ascii [OF ne] by simp
        then show False using less False by simp
      next
        case high: False
        from rune_bytes_high [OF ne high d]
        have "\<forall>b \<in> set (take ?n s). 0x80 \<le> (of_char b :: nat)" .
        moreover have "s ! k \<in> set (take ?n s)"
          using less "1.prems"(1) by (auto simp: in_set_conv_nth intro!: exI [of _ k])
        ultimately show False using "1.prems"(2) by auto
      qed
    qed
    then have le: "?n \<le> k" by simp
    have "scan_reaches (drop ?n s) (k - ?n)"
      using "1.IH" [OF False ne nk] "1.prems" le by simp
    then show ?thesis
      using False ne nk by (subst scan_reaches.simps) simp
  qed
qed

lemma esc_ascii_at:
  assumes "k < length s" "of_char (s ! k) < (0x80 :: nat)"
  shows "esc s h = esc (take k s) h
      @ (if htmlSafeSet (s ! k) \<or> (\<not> h \<and> safeSet (s ! k)) then [s ! k] else escape_ascii (s ! k))
      @ esc (drop (Suc k) s) h"
proof -
  have "esc s h = esc (take k s) h @ esc (drop k s) h"
    using esc_split [OF scan_reaches_ascii [OF assms]] assms(1) by simp
  moreover have "drop k s = s ! k # drop (Suc k) s"
    using assms(1) by (simp add: Cons_nth_drop_Suc)
  ultimately show ?thesis
    using esc_Cons_ascii [OF assms(2), of "drop (Suc k) s" h] by simp
qed

lemma html_escapes:
  "escape_ascii (CHR ''<'') = [backslash] @ ''u003c''"
  "escape_ascii (CHR ''>'') = [backslash] @ ''u003e''"
  "escape_ascii (CHR ''&'') = [backslash] @ ''u0026''"
  "\<not> htmlSafeSet (CHR ''<'')" "\<not> htmlSafeSet (CHR ''>'')" "\<not> htmlSafeSet (CHR ''&'')"
  by (simp_all add: escape_ascii_def hex_def htmlSafeSet_def backslash_def quote_def)

section \<open>Escaping and decoding\<close>

text \<open>
  C2 (amended). For every string that is valid UTF-8, and for both settings of the HTML
  flag, what \<^verbatim>\<open>Event.string\<close> appends is a JSON string literal that decodes to exactly
  that string. With the HTML flag set the literal has no \<^verbatim>\<open><\<close>, \<^verbatim>\<open>>\<close> or
  \<^verbatim>\<open>&\<close> byte, for every string, valid or not: where the input has one of these
  bytes, the literal has \<^verbatim>\<open>\u003c\<close>, \<^verbatim>\<open>\u003e\<close> or \<^verbatim>\<open>\u0026\<close>, between
  what is written for the bytes before and for the bytes after.
\<close>

theorem string_decodes_to_input:
  "(valid_utf8 s \<longrightarrow> json_unquote (drop (length (buf e)) (buf (string e s h))) = Some s)
   \<and> CHR ''<'' \<notin> set (drop (length (buf e)) (buf (string e s True)))
   \<and> CHR ''>'' \<notin> set (drop (length (buf e)) (buf (string e s True)))
   \<and> CHR ''&'' \<notin> set (drop (length (buf e)) (buf (string e s True)))
   \<and> buf (string e s True) = buf e @ [quote] @ esc s True @ [quote]
   \<and> (\<forall>k < length s.
        (s ! k = CHR ''<'' \<longrightarrow>
           esc s True = esc (take k s) True @ [backslash] @ ''u003c'' @ esc (drop (Suc k) s) True)
      \<and> (s ! k = CHR ''>'' \<longrightarrow>
           esc s True = esc (take k s) True @ [backslash] @ ''u003e'' @ esc (drop (Suc k) s) True)
      \<and> (s ! k = CHR ''&'' \<longrightarrow>
           esc s True = esc (take k s) True @ [backslash] @ ''u0026'' @ esc (drop (Suc k) s) True))"
proof -
  have d: "drop (length (buf e)) (buf (string e s h')) = [quote] @ esc s h' @ [quote]" for h'
    by (simp add: string_esc)
  have a: "valid_utf8 s \<longrightarrow> json_unquote (drop (length (buf e)) (buf (string e s h))) = Some s"
    unfolding d json_unquote_quoted by (simp add: unquote_esc)
  have b: "CHR ''<'' \<notin> set (drop (length (buf e)) (buf (string e s True)))
   \<and> CHR ''>'' \<notin> set (drop (length (buf e)) (buf (string e s True)))
   \<and> CHR ''&'' \<notin> set (drop (length (buf e)) (buf (string e s True)))"
    using esc_html_safe [of s] unfolding d by (simp add: quote_def)
  have c: "buf (string e s True) = buf e @ [quote] @ esc s True @ [quote]"
    by (simp add: string_esc)
  have p: "esc s True = esc (take k s) True @ escape_ascii (s ! k) @ esc (drop (Suc k) s) True"
    if "k < length s" "s ! k = CHR ''<'' \<or> s ! k = CHR ''>'' \<or> s ! k = CHR ''&''" for k
  proof -
    have "of_char (s ! k) < (0x80 :: nat)" "\<not> htmlSafeSet (s ! k)"
      using that(2) html_escapes(4,5,6) by auto
    then show ?thesis
      using esc_ascii_at [OF that(1), of True] by simp
  qed
  have q: "\<forall>k < length s.
        (s ! k = CHR ''<'' \<longrightarrow>
           esc s True = esc (take k s) True @ [backslash] @ ''u003c'' @ esc (drop (Suc k) s) True)
      \<and> (s ! k = CHR ''>'' \<longrightarrow>
           esc s True = esc (take k s) True @ [backslash] @ ''u003e'' @ esc (drop (Suc k) s) True)
      \<and> (s ! k = CHR ''&'' \<longrightarrow>
           esc s True = esc (take k s) True @ [backslash] @ ''u0026'' @ esc (drop (Suc k) s) True)"
    using p html_escapes(1,2,3) by (metis append_assoc)
  from a b c q show ?thesis by blast
qed

definition example_text :: string where
  \<open>example_text = ''a"b<c>'' @ [CHR 0xE2, CHR 0x82, CHR 0xAC]\<close>

theorem string_decodes_to_input_witness:
  \<open>buf (string new_Event example_text False)
     = [quote] @ ''a'' @ [backslash] @ ''"b<c>'' @ [CHR 0xE2, CHR 0x82, CHR 0xAC] @ [quote]
   \<and> json_unquote (buf (string new_Event example_text False)) = Some example_text
   \<and> buf (string new_Event ''a<b'' True) = [quote] @ ''a'' @ [backslash] @ ''u003cb'' @ [quote]\<close>
proof -
  have d: "DecodeRuneInString [CHR 0xE2, CHR 0x82, CHR 0xAC] = (0x20AC, 3)"
    by (simp add: DecodeRuneInString_def first_size_def accept_lo_def accept_hi_def Let_def)
  have v0: "valid_utf8 [CHR 0xE2, CHR 0x82, CHR 0xAC]"
    by (subst valid_utf8.simps) (simp add: d RuneError_def valid_utf8_Nil)
  have v: "valid_utf8 example_text"
    by (simp add: example_text_def valid_utf8_ascii v0)
  have e0: "esc [CHR 0xE2, CHR 0x82, CHR 0xAC] False = [CHR 0xE2, CHR 0x82, CHR 0xAC]"
    by (subst esc.simps) (simp add: esc_unit_def RuneSelf_def d RuneError_def)
  have e: \<open>esc example_text False = ''a'' @ [backslash] @ ''"b<c>'' @ [CHR 0xE2, CHR 0x82, CHR 0xAC]\<close>
    by (simp add: example_text_def esc_Cons_ascii e0 htmlSafeSet_def safeSet_def escape_ascii_def
        quote_def backslash_def)
  have b: "buf new_Event = []" by (simp add: new_Event_def)
  have s: "buf (string new_Event example_text False) = [quote] @ esc example_text False @ [quote]"
    by (simp add: string_esc b)
  from string_decodes_to_input [of example_text new_Event False] v
  have j: "json_unquote (buf (string new_Event example_text False)) = Some example_text"
    by (simp add: b)
  note t = string_decodes_to_input [of "''a<b''" new_Event True]
  have k: "(1 :: nat) < length ''a<b''" "''a<b'' ! 1 = CHR ''<''" by simp_all
  have ab: "esc ''a'' True = ''a''" "esc ''b'' True = ''b''"
    by (simp_all add: esc_Cons_ascii htmlSafeSet_def)
  have "esc ''a<b'' True = esc (take 1 ''a<b'') True @ [backslash] @ ''u003c''
      @ esc (drop (Suc 1) ''a<b'') True"
    using t k by blast
  then have x: "esc ''a<b'' True = ''a'' @ [backslash] @ ''u003c'' @ ''b''"
    by (simp add: ab)
  have "buf (string new_Event ''a<b'' True) = buf new_Event @ [quote] @ esc ''a<b'' True @ [quote]"
    using t by blast
  then have y: "buf (string new_Event ''a<b'' True) = [quote] @ ''a'' @ [backslash] @ ''u003cb'' @ [quote]"
    by (simp add: b x)
  from j y show ?thesis
    by (simp add: s e)
qed

text \<open>
  C2 as stated fails for a string that is not valid UTF-8: the byte 0xFF is written as the
  escape of U+FFFD, which decodes to the three bytes of U+FFFD, not to the byte 0xFF.
\<close>

theorem invalid_string_not_restored:
  "buf (string new_Event [CHR 0xFF] False)
     = [quote, backslash, CHR ''u'', CHR ''f'', CHR ''f'', CHR ''f'', CHR ''d'', quote]
   \<and> json_unquote (buf (string new_Event [CHR 0xFF] False)) = Some [CHR 0xEF, CHR 0xBF, CHR 0xBD]
   \<and> json_unquote (buf (string new_Event [CHR 0xFF] False)) \<noteq> Some [CHR 0xFF]"
proof -
  have d: "DecodeRuneInString [CHR 0xFF] = (RuneError, 1)"
    by (simp add: DecodeRuneInString_def first_size_def Let_def)
  have e: "esc [CHR 0xFF] False = replacement_escape"
    by (subst esc.simps) (simp add: esc_unit_def RuneSelf_def d)
  have s: "buf (string new_Event [CHR 0xFF] False) = [quote] @ replacement_escape @ [quote]"
    by (simp add: string_esc new_Event_def e)
  have hx: "hex4 (CHR ''f'') (CHR ''f'') (CHR ''f'') (CHR ''d'') = Some 0xFFFD"
    by (simp add: hex4_def hex_val_def)
  have ns: "\<not> (0xD800 \<le> (0xFFFD :: nat) \<and> (0xFFFD :: nat) < 0xDC00)" by simp
  have u: "unquote_body replacement_escape = Some (utf8_encode 0xFFFD)"
    using unquote_u [OF hx ns, of "[]"] by (simp add: replacement_escape_def)
  have en: "utf8_encode 0xFFFD = [CHR 0xEF, CHR 0xBF, CHR 0xBD]"
    using char_of_eq [of "CHR 0xEF" 239] char_of_eq [of "CHR 0xBF" 191] char_of_eq [of "CHR 0xBD" 189]
    by (simp add: utf8_encode_def)
  have j: "json_unquote (buf (string new_Event [CHR 0xFF] False)) = Some [CHR 0xEF, CHR 0xBF, CHR 0xBD]"
    unfolding s json_unquote_quoted by (simp add: u en)
  show ?thesis
    using j by (simp add: s replacement_escape_def)
qed

section \<open>Well-formed JSON\<close>

text \<open>
  A recogniser for JSON texts as RFC 8259 defines them, reading one byte at a time. It
  keeps a mode (what may come next) and the stack of the objects and arrays that are
  open. Inside a string literal a second, smaller machine follows the escapes; inside a
  number a third one follows the grammar of numbers. Whitespace is accepted wherever
  the grammar allows it. Like Go's \<^verbatim>\<open>json.Valid\<close> the recogniser works on bytes and
  does not look at the encoding of the bytes above 0x7F inside a string.
\<close>

datatype smode = SBody | SEsc | SHex nat | SEnd | SBad

definition is_hex :: "char \<Rightarrow> bool" where
  "is_hex c = (hex_val c \<noteq> None)"

fun str_step :: "smode \<Rightarrow> char \<Rightarrow> smode" where
  "str_step SBody c =
    (if c = quote then SEnd
     else if c = backslash then SEsc
     else if (of_char c :: nat) < 0x20 then SBad
     else SBody)"
| "str_step SEsc c =
    (if c = CHR ''u'' then SHex 4 else if simple_escape c \<noteq> None then SBody else SBad)"
| "str_step (SHex n) c = (if is_hex c then (if n \<le> 1 then SBody else SHex (n - 1)) else SBad)"
| "str_step SEnd c = SBad"
| "str_step SBad c = SBad"

definition string_body :: "string \<Rightarrow> bool" where
  \<comment> \<open>a text that can stand between the quotes of a string literal\<close>
  "string_body k = (foldl str_step SBody k = SBody)"

datatype nmode = NMinus | NZero | NInt | NDot | NFrac | NExp | NSign | NExpDigits | NBad

definition is_digit :: "char \<Rightarrow> bool" where
  "is_digit c = (48 \<le> (of_char c :: nat) \<and> (of_char c :: nat) \<le> 57)"

definition is_exp :: "char \<Rightarrow> bool" where
  "is_exp c = (c = CHR ''e'' \<or> c = CHR ''E'')"

definition num_char :: "char \<Rightarrow> bool" where
  "num_char c = (is_digit c \<or> is_exp c \<or> c = CHR ''.'' \<or> c = CHR ''+'' \<or> c = CHR ''-'')"

fun num_step :: "nmode \<Rightarrow> char \<Rightarrow> nmode" where
  "num_step NMinus c = (if c = CHR ''0'' then NZero else if is_digit c then NInt else NBad)"
| "num_step NZero c = (if c = CHR ''.'' then NDot else if is_exp c then NExp else NBad)"
| "num_step NInt c =
    (if is_digit c then NInt else if c = CHR ''.'' then NDot else if is_exp c then NExp else NBad)"
| "num_step NDot c = (if is_digit c then NFrac else NBad)"
| "num_step NFrac c = (if is_digit c then NFrac else if is_exp c then NExp else NBad)"
| "num_step NExp c =
    (if c = CHR ''+'' \<or> c = CHR ''-'' then NSign else if is_digit c then NExpDigits else NBad)"
| "num_step NSign c = (if is_digit c then NExpDigits else NBad)"
| "num_step NExpDigits c = (if is_digit c then NExpDigits else NBad)"
| "num_step NBad c = NBad"

fun num_done :: "nmode \<Rightarrow> bool" where
  "num_done NZero = True"
| "num_done NInt = True"
| "num_done NFrac = True"
| "num_done NExpDigits = True"
| "num_done m = False"

datatype jctx = InObj | InArr

datatype jmode =
  JValue | JArrFirst | JObjFirst | JKey | JColon | JStr bool smode | JLit string | JNum nmode
  | JAfter | JError

type_synonym jstate = "jmode \<times> jctx list"

definition is_ws :: "char \<Rightarrow> bool" where
  "is_ws c = (c = CHR 0x20 \<or> c = CHR 0x09 \<or> c = CHR 0x0A \<or> c = CHR 0x0D)"

definition begin_value :: "jctx list \<Rightarrow> char \<Rightarrow> jstate" where
  "begin_value stk c =
    (if c = CHR ''{'' then (JObjFirst, InObj # stk)
     else if c = CHR ''['' then (JArrFirst, InArr # stk)
     else if c = quote then (JStr False SBody, stk)
     else if c = CHR ''-'' then (JNum NMinus, stk)
     else if c = CHR ''0'' then (JNum NZero, stk)
     else if is_digit c then (JNum NInt, stk)
     else if c = CHR ''t'' then (JLit ''rue'', stk)
     else if c = CHR ''f'' then (JLit ''alse'', stk)
     else if c = CHR ''n'' then (JLit ''ull'', stk)
     else (JError, stk))"

definition close_ctx :: "jctx \<Rightarrow> jctx list \<Rightarrow> jstate" where
  "close_ctx x stk =
    (case stk of
       [] \<Rightarrow> (JError, stk)
     | y # r \<Rightarrow> if y = x then (JAfter, r) else (JError, stk))"

definition end_value :: "jctx list \<Rightarrow> char \<Rightarrow> jstate" where
  "end_value stk c =
    (if is_ws c then (JAfter, stk)
     else if c = CHR ''}'' then close_ctx InObj stk
     else if c = CHR '']'' then close_ctx InArr stk
     else if c = CHR '','' then
       (case stk of
          [] \<Rightarrow> (JError, stk)
        | y # r \<Rightarrow> (if y = InObj then JKey else JValue, stk))
     else (JError, stk))"

fun json_step :: "jstate \<Rightarrow> char \<Rightarrow> jstate" where
  "json_step (JValue, stk) c = (if is_ws c then (JValue, stk) else begin_value stk c)"
| "json_step (JArrFirst, stk) c =
    (if is_ws c then (JArrFirst, stk)
     else if c = CHR '']'' then close_ctx InArr stk
     else begin_value stk c)"
| "json_step (JObjFirst, stk) c =
    (if is_ws c then (JObjFirst, stk)
     else if c = CHR ''}'' then close_ctx InObj stk
     else if c = quote then (JStr True SBody, stk)
     else (JError, stk))"
| "json_step (JKey, stk) c =
    (if is_ws c then (JKey, stk) else if c = quote then (JStr True SBody, stk) else (JError, stk))"
| "json_step (JColon, stk) c =
    (if is_ws c then (JColon, stk) else if c = CHR '':'' then (JValue, stk) else (JError, stk))"
| "json_step (JStr k m, stk) c =
    (case str_step m c of
       SEnd \<Rightarrow> (if k then JColon else JAfter, stk)
     | SBad \<Rightarrow> (JError, stk)
     | m' \<Rightarrow> (JStr k m', stk))"
| "json_step (JLit r, stk) c =
    (case r of
       [] \<Rightarrow> (JError, stk)
     | x # xs \<Rightarrow>
         if c \<noteq> x then (JError, stk) else if xs = [] then (JAfter, stk) else (JLit xs, stk))"
| "json_step (JNum m, stk) c =
    (if num_char c then
       (case num_step m c of NBad \<Rightarrow> (JError, stk) | m' \<Rightarrow> (JNum m', stk))
     else if num_done m then end_value stk c
     else (JError, stk))"
| "json_step (JAfter, stk) c = end_value stk c"
| "json_step (JError, stk) c = (JError, stk)"

definition run :: "jstate \<Rightarrow> string \<Rightarrow> jstate" where
  "run st s = foldl json_step st s"

fun value_done :: "jmode \<Rightarrow> bool" where
  "value_done JAfter = True"
| "value_done (JNum m) = num_done m"
| "value_done m = False"

definition json_value :: "string \<Rightarrow> bool" where
  \<comment> \<open>the text is one JSON value, with nothing open and nothing after it\<close>
  "json_value s = (value_done (fst (run (JValue, []) s)) \<and> snd (run (JValue, []) s) = [])"

subsection \<open>Running the recogniser\<close>

lemma run_Nil [simp]: "run st [] = st"
  by (simp add: run_def)

lemma run_Cons: "run st (c # s) = run (json_step st c) s"
  by (simp add: run_def)

lemma run_append: "run st (a @ b) = run (run st a) b"
  by (simp add: run_def)

lemma run_error: "run (JError, stk) s = (JError, stk)"
  by (induction s) (simp_all add: run_Cons)

lemma close_ctx_frame:
  "close_ctx x s = (m', s') \<Longrightarrow> m' \<noteq> JError \<Longrightarrow> close_ctx x (s @ t) = (m', s' @ t)"
  by (cases s) (auto simp: close_ctx_def split: if_splits)

lemma begin_value_frame:
  "begin_value s c = (m', s') \<Longrightarrow> begin_value (s @ t) c = (m', s' @ t)"
proof -
  have "begin_value (s @ t) c = (fst (begin_value s c), snd (begin_value s c) @ t)"
    by (simp add: begin_value_def)
  then show "begin_value s c = (m', s') \<Longrightarrow> begin_value (s @ t) c = (m', s' @ t)"
    by simp
qed

lemma end_value_frame:
  "end_value s c = (m', s') \<Longrightarrow> m' \<noteq> JError \<Longrightarrow> end_value (s @ t) c = (m', s' @ t)"
  by (cases s) (auto simp: end_value_def close_ctx_def split: if_splits)

lemma json_step_frame:
  assumes "json_step (m, s) c = (m', s')" "m' \<noteq> JError"
  shows "json_step (m, s @ t) c = (m', s' @ t)"
proof (cases m)
  case JValue
  then show ?thesis using assms by (auto simp: begin_value_frame split: if_splits)
next
  case JArrFirst
  then show ?thesis using assms by (auto simp: begin_value_frame close_ctx_frame split: if_splits)
next
  case JObjFirst
  then show ?thesis using assms by (auto simp: close_ctx_frame split: if_splits)
next
  case JKey
  then show ?thesis using assms by (auto split: if_splits)
next
  case JColon
  then show ?thesis using assms by (auto split: if_splits)
next
  case (JStr k sm)
  then show ?thesis using assms by (auto split: if_splits smode.splits)
next
  case (JLit r)
  then show ?thesis using assms by (auto split: if_splits list.splits)
next
  case (JNum nm)
  then show ?thesis using assms by (auto simp: end_value_frame split: if_splits nmode.splits)
next
  case JAfter
  then show ?thesis using assms by (auto simp: end_value_frame)
next
  case JError
  then show ?thesis using assms by auto
qed

lemma run_frame:
  "run (m, s) v = (m', s') \<Longrightarrow> m' \<noteq> JError \<Longrightarrow> run (m, s @ t) v = (m', s' @ t)"
proof (induction v arbitrary: m s)
  case Nil
  then show ?case by simp
next
  case (Cons c v)
  obtain m1 s1 where st: "json_step (m, s) c = (m1, s1)" by (cases "json_step (m, s) c") auto
  have r: "run (m1, s1) v = (m', s')" using Cons.prems(1) by (simp add: run_Cons st)
  have "m1 \<noteq> JError" using r Cons.prems(2) by (auto simp: run_error)
  from json_step_frame [OF st this] have "json_step (m, s @ t) c = (m1, s1 @ t)" .
  then show ?case
    using Cons.IH [OF r Cons.prems(2)] by (simp add: run_Cons)
qed

text \<open>A value text is read as one value wherever a value is expected.\<close>

definition valued :: "string \<Rightarrow> bool" where
  "valued v = (\<forall>stk. \<exists>m. value_done m \<and> run (JValue, stk) v = (m, stk))"

lemma value_done_not_error: "value_done m \<Longrightarrow> m \<noteq> JError"
  by auto

lemma json_value_valued: "json_value v = valued v"
proof
  assume a: "json_value v"
  obtain m where r: "run (JValue, []) v = (m, [])" "value_done m"
    using a by (cases "run (JValue, []) v") (auto simp: json_value_def)
  show "valued v"
    unfolding valued_def
  proof
    fix stk
    from run_frame [OF r(1) value_done_not_error [OF r(2)], of stk]
    show "\<exists>m. value_done m \<and> run (JValue, stk) v = (m, stk)"
      using r(2) by auto
  qed
next
  assume "valued v"
  then obtain m where "value_done m" "run (JValue, []) v = (m, [])"
    unfolding valued_def by blast
  then show "json_value v" by (simp add: json_value_def)
qed

lemma valuedI: "(\<And>stk. \<exists>m. value_done m \<and> run (JValue, stk) v = (m, stk)) \<Longrightarrow> valued v"
  by (simp add: valued_def)

lemma valuedE:
  assumes "valued v"
  obtains m where "value_done m" "run (JValue, stk) v = (m, stk)"
  using assms unfolding valued_def by blast

subsection \<open>String literals\<close>

lemma str_bad: "foldl str_step SBad k = SBad"
  by (induction k) simp_all

lemma str_end: "foldl str_step SEnd k = SBody \<Longrightarrow> False"
  by (cases k) (simp_all add: str_bad)

lemma run_string:
  "foldl str_step sm k = SBody \<Longrightarrow> run (JStr b sm, stk) k = (JStr b SBody, stk)"
proof (induction k arbitrary: sm)
  case Nil
  then show ?case by simp
next
  case (Cons c k)
  have f: "foldl str_step (str_step sm c) k = SBody" using Cons.prems by simp
  have "str_step sm c \<noteq> SBad" using f by (auto simp: str_bad)
  moreover have "str_step sm c \<noteq> SEnd" using f str_end by auto
  ultimately have "json_step (JStr b sm, stk) c = (JStr b (str_step sm c), stk)"
    by (cases "str_step sm c") simp_all
  then show ?case using Cons.IH [OF f] by (simp add: run_Cons)
qed

lemma run_string_body: "string_body k \<Longrightarrow> run (JStr b SBody, stk) k = (JStr b SBody, stk)"
  by (simp add: string_body_def run_string)

lemma string_body_Nil [simp]: "string_body []"
  by (simp add: string_body_def)

lemma string_body_append: "string_body a \<Longrightarrow> string_body b \<Longrightarrow> string_body (a @ b)"
  by (simp add: string_body_def)

definition plain :: "char \<Rightarrow> bool" where
  "plain c = (c \<noteq> quote \<and> c \<noteq> backslash \<and> \<not> (of_char c :: nat) < 0x20)"

lemma string_body_plain_Cons: "plain c \<Longrightarrow> string_body (c # k) = string_body k"
  by (simp add: string_body_def plain_def)

lemma string_body_plain: "list_all plain k \<Longrightarrow> string_body k"
  by (induction k) (simp_all add: string_body_plain_Cons)

lemma valued_literal: "string_body k \<Longrightarrow> valued ([quote] @ k @ [quote])"
proof (rule valuedI)
  fix stk
  assume k: "string_body k"
  have a: "run (JValue, stk) [quote] = (JStr False SBody, stk)"
    by (simp add: run_Cons begin_value_def is_ws_def quote_def)
  have b: "run (JStr False SBody, stk) [quote] = (JAfter, stk)"
    by (simp add: run_Cons)
  show "\<exists>m. value_done m \<and> run (JValue, stk) ([quote] @ k @ [quote]) = (m, stk)"
    by (simp only: run_append a b run_string_body [OF k]) simp
qed

lemma run_key:
  assumes "string_body k" "value_done m"
  shows "run (m, InObj # stk) (key_text k) = (JValue, InObj # stk)"
proof -
  have c: "json_step (m, InObj # stk) (CHR '','') = (JKey, InObj # stk)"
    using assms(2) by (cases m) (simp_all add: end_value_def is_ws_def num_char_def is_digit_def is_exp_def)
  have a: "run (m, InObj # stk) [CHR '','', quote] = (JStr True SBody, InObj # stk)"
    by (simp add: run_Cons c is_ws_def quote_def)
  have b: "run (JStr True SBody, InObj # stk) [quote, CHR '':''] = (JValue, InObj # stk)"
    by (simp add: run_Cons is_ws_def)
  show ?thesis
    unfolding key_text_def
    by (simp only: run_append a b run_string_body [OF assms(1)])
qed

subsection \<open>What the escaper writes is the body of a string literal\<close>

lemma is_hex_hex: "k < 16 \<Longrightarrow> is_hex (hex ! k)"
  by (simp add: is_hex_def hex_val_hex)

lemma string_body_escape_u:
  assumes "is_hex a" "is_hex b" "is_hex c" "is_hex d"
  shows "string_body [backslash, CHR ''u'', a, b, c, d]"
  using assms by (simp add: string_body_def backslash_def quote_def)

lemma string_body_escape_ascii: "string_body (escape_ascii b)"
proof -
  have z: "is_hex (CHR ''0'')" by (simp add: is_hex_def hex_val_def)
  have h: "is_hex (hex ! (of_char b div 16))" "is_hex (hex ! (of_char b mod 16))"
    using of_char_div16 [of b] by (simp_all add: is_hex_hex)
  have u: "string_body [backslash, CHR ''u'', CHR ''0'', CHR ''0'', hex ! (of_char b div 16),
      hex ! (of_char b mod 16)]"
    by (rule string_body_escape_u [OF z z h])
  have s: "string_body [backslash, e]" if "simple_escape e \<noteq> None" "e \<noteq> CHR ''u''" for e
    using that by (simp add: string_body_def backslash_def quote_def)
  have s1: "string_body [backslash, b]" if "b = backslash \<or> b = quote"
    using that by (intro s) (auto simp: simple_escape_def backslash_def quote_def)
  have s2: "string_body [backslash, CHR ''n'']" "string_body [backslash, CHR ''r'']"
    "string_body [backslash, CHR ''t'']"
    by (rule s; simp add: simple_escape_def backslash_def quote_def)+
  show ?thesis
    using u s1 s2 by (auto simp: escape_ascii_def)
qed

lemma string_body_replacement: "string_body replacement_escape"
  unfolding replacement_escape_def
  by (simp add: string_body_def backslash_def quote_def is_hex_def hex_val_def)

lemma plain_high: "0x80 \<le> (of_char b :: nat) \<Longrightarrow> plain b"
  by (auto simp: plain_def backslash_def quote_def)

lemma string_body_unit: "s \<noteq> [] \<Longrightarrow> string_body (fst (esc_unit s h))"
proof (cases "of_char (hd s) < RuneSelf")
  case True
  show ?thesis
  proof (cases "htmlSafeSet (hd s) \<or> (\<not> h \<and> safeSet (hd s))")
    case safe: True
    then have u: "fst (esc_unit s h) = [hd s]" using True by (auto simp: esc_unit_def Let_def)
    have "htmlSafeSet (hd s) \<or> safeSet (hd s)" using safe by auto
    from safe_byte_plain [OF this] have "plain (hd s)" by (simp add: plain_def)
    then show ?thesis by (simp add: u string_body_plain)
  next
    case False
    then have "fst (esc_unit s h) = escape_ascii (hd s)" using True by (auto simp: esc_unit_def Let_def)
    then show ?thesis by (simp add: string_body_escape_ascii)
  qed
next
  case False
  assume ne: "s \<noteq> []"
  obtain r n where d: "DecodeRuneInString s = (r, n)" by (cases "DecodeRuneInString s") auto
  have s0: "hd s = s ! 0" using ne by (simp add: hd_conv_nth)
  have high: "\<forall>b \<in> set (take n s). 0x80 \<le> (of_char b :: nat)"
    using rune_bytes_high [OF ne _ d] False by (simp add: s0 RuneSelf_def)
  have u: "fst (esc_unit s h) =
      (if r = RuneError \<and> n = 1 then replacement_escape
       else if r = 0x2028 \<or> r = 0x2029 then
         [backslash, CHR ''u'', CHR ''2'', CHR ''0'', CHR ''2'', hex ! (r mod 16)]
       else take n s)"
    using False d by (simp add: esc_unit_def Let_def)
  have z: "is_hex (CHR ''0'')" "is_hex (CHR ''2'')" by (simp_all add: is_hex_def hex_val_def)
  have a2: "string_body [backslash, CHR ''u'', CHR ''2'', CHR ''0'', CHR ''2'', hex ! (r mod 16)]"
    by (rule string_body_escape_u) (simp_all add: z is_hex_hex)
  have a3: "string_body (take n s)"
    using high by (intro string_body_plain) (simp add: list_all_iff plain_high)
  show ?thesis
    unfolding u using string_body_replacement a2 a3 by simp
qed

lemma string_body_esc: "string_body (esc s h)"
proof (induction "length s" arbitrary: s rule: less_induct)
  case less
  show ?case
  proof (cases "s = []")
    case True
    then show ?thesis by simp
  next
    case False
    have "length (drop (snd (esc_unit s h)) s) < length s"
      using esc_unit_size_pos [OF False, of h] False by simp
    then have "string_body (esc (drop (snd (esc_unit s h)) s) h)"
      by (rule less.hyps)
    then show ?thesis
      using string_body_unit [OF False, of h] esc_step [OF False, of h]
      by (simp add: string_body_append)
  qed
qed

lemma valued_str_lit: "valued (str_lit h s)"
  unfolding str_lit_def by (rule valued_literal) (rule string_body_esc)

subsection \<open>Numbers and literals\<close>

lemma digit_char_is_digit: "d < 10 \<Longrightarrow> is_digit (digit_char d)"
  using digit_char_cases [of d] by (auto simp: is_digit_def)

lemma digit_char_zero: "d < 10 \<Longrightarrow> (digit_char d = CHR ''0'') = (d = 0)"
  by (rule digit_char_eq_zero)

lemma digit_not_ws: "is_digit c \<Longrightarrow> \<not> is_ws c \<and> num_char c \<and> c \<noteq> CHR ''.'' \<and> \<not> is_exp c
    \<and> c \<noteq> CHR ''{'' \<and> c \<noteq> CHR ''['' \<and> c \<noteq> quote \<and> c \<noteq> CHR ''-''"
  by (auto simp: is_digit_def is_ws_def num_char_def is_exp_def quote_def)

lemma run_first_digit:
  assumes "d < 10"
  shows "run (JValue, stk) [digit_char d] = (JNum (if d = 0 then NZero else NInt), stk)"
  using digit_not_ws [OF digit_char_is_digit [OF assms]] digit_char_is_digit [OF assms]
    digit_char_zero [OF assms]
  by (simp add: run_Cons begin_value_def)

lemma run_minus_digit:
  assumes "d < 10"
  shows "run (JNum NMinus, stk) [digit_char d] = (JNum (if d = 0 then NZero else NInt), stk)"
  using digit_not_ws [OF digit_char_is_digit [OF assms]] digit_char_is_digit [OF assms]
    digit_char_zero [OF assms]
  by (simp add: run_Cons)

lemma run_next_digit:
  assumes "d < 10"
  shows "run (JNum NInt, stk) [digit_char d] = (JNum NInt, stk)"
  using digit_not_ws [OF digit_char_is_digit [OF assms]] digit_char_is_digit [OF assms]
  by (simp add: run_Cons)

lemma run_decimal:
  assumes "\<And>d. d < 10 \<Longrightarrow> run st [digit_char d] = (JNum (if d = 0 then NZero else NInt), stk)"
  shows "run st (decimal n) = (JNum (if n = 0 then NZero else NInt), stk)"
proof (induction n rule: less_induct)
  case (less n)
  show ?case
  proof (cases "n < 10")
    case True
    then show ?thesis by (simp add: decimal_digit assms)
  next
    case False
    then have "n div 10 < n" "n div 10 \<noteq> 0" by simp_all
    then have "run st (decimal (n div 10)) = (JNum NInt, stk)"
      using less.IH [of "n div 10"] by simp
    then show ?thesis
      using False by (simp add: decimal_step run_append run_next_digit)
  qed
qed

lemma valued_AppendUint: "valued (AppendUint n)"
proof (rule valuedI)
  fix stk
  have "run (JValue, stk) (decimal n) = (JNum (if n = 0 then NZero else NInt), stk)"
    by (rule run_decimal) (rule run_first_digit)
  then show "\<exists>m. value_done m \<and> run (JValue, stk) (AppendUint n) = (m, stk)"
    by (simp add: AppendUint_def)
qed

lemma valued_AppendInt: "valued (AppendInt i)"
proof (rule valuedI)
  fix stk
  show "\<exists>m. value_done m \<and> run (JValue, stk) (AppendInt i) = (m, stk)"
  proof (cases "i < 0")
    case True
    have m: "json_step (JValue, stk) (CHR ''-'') = (JNum NMinus, stk)"
      by (simp add: begin_value_def is_ws_def quote_def)
    have r: "run (JNum NMinus, stk) (decimal (nat (- i)))
        = (JNum (if nat (- i) = 0 then NZero else NInt), stk)"
      by (rule run_decimal) (rule run_minus_digit)
    have "run (JValue, stk) (AppendInt i) = (JNum (if nat (- i) = 0 then NZero else NInt), stk)"
      using True by (simp only: AppendInt_def if_True run_Cons m r)
    then show ?thesis by simp
  next
    case False
    have "run (JValue, stk) (decimal (nat i)) = (JNum (if nat i = 0 then NZero else NInt), stk)"
      by (rule run_decimal) (rule run_first_digit)
    then show ?thesis
      using False by (simp add: AppendInt_def)
  qed
qed

lemma valued_AppendBool: "valued (AppendBool b)"
  by (rule valuedI)
     (cases b; simp add: AppendBool_def run_Cons begin_value_def is_ws_def quote_def is_digit_def)

lemma valued_null: "valued ''null''"
  by (rule valuedI) (simp add: run_Cons begin_value_def is_ws_def quote_def is_digit_def)

lemma valued_err: "valued (err_text h err)"
  by (cases err) (simp_all add: err_text_def valued_null valued_str_lit)

subsection \<open>Arrays\<close>

lemma step_done:
  "value_done m \<Longrightarrow> \<not> num_char c \<Longrightarrow> json_step (m, stk) c = end_value stk c"
  by (cases m) simp_all

lemma separators_not_num:
  "\<not> num_char (CHR '','')" "\<not> num_char (CHR '']'')" "\<not> num_char (CHR ''}'')"
  "\<not> is_ws (CHR '','')" "\<not> is_ws (CHR '']'')" "\<not> is_ws (CHR ''}'')"
  by (simp_all add: num_char_def is_digit_def is_exp_def is_ws_def)

lemma run_first_element:
  "fst (run (JValue, s) v) \<noteq> JError \<Longrightarrow> fst (run (JValue, s) v) \<noteq> JValue
   \<Longrightarrow> run (JArrFirst, s) v = run (JValue, s) v"
proof (induction v)
  case Nil
  then show ?case by simp
next
  case (Cons c v)
  show ?case
  proof (cases "is_ws c")
    case True
    then show ?thesis using Cons by (simp add: run_Cons)
  next
    case False
    have "c \<noteq> CHR '']''"
    proof
      assume "c = CHR '']''"
      then have "json_step (JValue, s) c = (JError, s)"
        by (simp add: begin_value_def is_ws_def quote_def is_digit_def)
      then show False using Cons.prems(1) by (simp add: run_Cons run_error)
    qed
    then show ?thesis using False by (simp add: run_Cons)
  qed
qed

lemma run_first_valued:
  assumes "valued v"
  shows "\<exists>m. value_done m \<and> run (JArrFirst, stk) v = (m, stk)"
proof -
  from valuedE [OF assms, of stk] obtain m where m: "value_done m" "run (JValue, stk) v = (m, stk)"
    by blast
  have "run (JArrFirst, stk) v = run (JValue, stk) v"
    by (rule run_first_element) (use m in auto)
  then show ?thesis using m by auto
qed

lemma run_more_elements:
  "list_all valued ys \<Longrightarrow> value_done m
   \<Longrightarrow> \<exists>m'. value_done m' \<and>
         run (m, InArr # stk) (concat (map (\<lambda>y. '','' @ y) ys)) = (m', InArr # stk)"
proof (induction ys arbitrary: m)
  case Nil
  then show ?case by simp
next
  case (Cons y ys)
  have c: "json_step (m, InArr # stk) (CHR '','') = (JValue, InArr # stk)"
    using Cons.prems(2) by (simp add: step_done separators_not_num end_value_def)
  from Cons.prems(1) have "valued y" by simp
  from valuedE [OF this, of "InArr # stk"] obtain m1 where
    m1: "value_done m1" "run (JValue, InArr # stk) y = (m1, InArr # stk)" by blast
  from Cons.IH [OF _ m1(1)] Cons.prems(1) obtain m' where
    "value_done m'" "run (m1, InArr # stk) (concat (map (\<lambda>y. '','' @ y) ys)) = (m', InArr # stk)"
    by auto
  then show ?case
    by (simp add: run_Cons run_append c m1(2))
qed

lemma valued_array: "list_all valued ys \<Longrightarrow> valued (array_text ys)"
proof (rule valuedI)
  fix stk
  assume a: "list_all valued ys"
  have o: "run (JValue, stk) ''['' = (JArrFirst, InArr # stk)"
    by (simp add: run_Cons begin_value_def is_ws_def)
  have cl: "run (m, InArr # stk) '']'' = (JAfter, stk)" if "value_done m" for m
    using that by (simp add: run_Cons step_done separators_not_num end_value_def close_ctx_def)
  show "\<exists>m. value_done m \<and> run (JValue, stk) (array_text ys) = (m, stk)"
  proof (cases ys)
    case Nil
    have "run (JArrFirst, InArr # stk) '']'' = (JAfter, stk)"
      by (simp add: run_Cons is_ws_def close_ctx_def)
    then show ?thesis
      unfolding array_text_def Nil by (simp only: run_append o comma_join.simps append_Nil) simp
  next
    case (Cons y zs)
    have "valued y" "list_all valued zs" using a Cons by simp_all
    from run_first_valued [OF this(1), of "InArr # stk"] obtain m1 where
      m1: "value_done m1" "run (JArrFirst, InArr # stk) y = (m1, InArr # stk)" by blast
    from run_more_elements [OF \<open>list_all valued zs\<close> m1(1), of stk] obtain m2 where
      m2: "value_done m2"
        "run (m1, InArr # stk) (concat (map (\<lambda>y. '','' @ y) zs)) = (m2, InArr # stk)"
      by blast
    have "run (JValue, stk) (array_text ys) = (JAfter, stk)"
      unfolding array_text_def Cons comma_join_Cons
      by (simp only: run_append o m1(2) m2(2) cl [OF m2(1)])
    then show ?thesis by simp
  qed
qed

subsection \<open>Times and call sites\<close>

lemma plain_digit: "d < 10 \<Longrightarrow> plain (digit_char d)"
  using digit_char_cases [of d] by (auto simp: plain_def quote_def backslash_def)

lemma plain_decimal: "list_all plain (decimal n)"
proof -
  have "c \<in> set ''0123456789'' \<Longrightarrow> plain c" for c
    by (auto simp: plain_def quote_def backslash_def)
  then show ?thesis
    using decimal_chars [of n] by (auto simp: list_all_iff)
qed

lemma plain_AppendInt: "list_all plain (AppendInt i)"
  by (simp add: AppendInt_def plain_decimal) (simp add: plain_def quote_def backslash_def)

lemma valued_time_text: "fast_time_ok t \<Longrightarrow> valued (time_text t)"
proof -
  assume "fast_time_ok t"
  then have v: "valid_time t" "0 \<le> Year t" "Year t \<le> 9999"
    by (simp_all add: fast_time_ok_def)
  have d: "plain (digit_char (n mod 10))" for n
    by (rule plain_digit) simp
  have d1: "plain (digit_char (nat (Year t) div 1000))"
    using v by (intro plain_digit) simp
  have "nat (Nanosecond t) \<le> 999999999"
    using v(1) by (auto simp: valid_time_def)
  then have "nat (Nanosecond t) div 100000000 < 10" by simp
  then have d2: "plain (digit_char (nat (Nanosecond t) div 100000000))"
    by (rule plain_digit)
  have d3: "plain (digit_char (nat a div 10))" if "0 \<le> a" "a \<le> 99" for a
    using that by (intro plain_digit) simp
  have r: "0 \<le> Month t" "Month t \<le> 99" "0 \<le> Day t" "Day t \<le> 99" "0 \<le> Hour t" "Hour t \<le> 99"
    "0 \<le> Minute t" "Minute t \<le> 99" "0 \<le> Second t" "Second t \<le> 99"
    using v(1) by (simp_all add: valid_time_def)
  have p: "plain (CHR ''-'')" "plain (CHR ''T'')" "plain (CHR '':'')" "plain (CHR ''.'')"
    "plain (CHR ''Z'')"
    by (simp_all add: plain_def quote_def backslash_def)
  define body where "body =
      [digit_char (nat (Year t) div 1000), digit_char (nat (Year t) div 100 mod 10),
        digit_char (nat (Year t) div 10 mod 10), digit_char (nat (Year t) mod 10)]
     @ ''-'' @ two_digits (nat (Month t)) @ ''-'' @ two_digits (nat (Day t))
     @ ''T'' @ two_digits (nat (Hour t)) @ '':'' @ two_digits (nat (Minute t))
     @ '':'' @ two_digits (nat (Second t))
     @ ''.'' @ [digit_char (nat (Nanosecond t) div 100000000),
                digit_char (nat (Nanosecond t) div 10000000 mod 10),
                digit_char (nat (Nanosecond t) div 1000000 mod 10)]
     @ ''Z''"
  have "list_all plain body"
    unfolding body_def by (simp add: two_digits_def d d1 d2 d3 r p)
  then have b: "string_body body" by (rule string_body_plain)
  have "time_text t = [quote] @ body @ [quote]"
    unfolding time_text_def time_digits [OF v] body_def by (simp add: new_Event_def)
  then show ?thesis
    using valued_literal [OF b] by simp
qed

lemma valued_time_value:
  "list_all string_body (if tf = [] then [] else [AppendFormat x t tf])
   \<Longrightarrow> list_all fast_time_ok (if tf = [] then [t] else [])
   \<Longrightarrow> valued (time_value x tf t)"
  using valued_literal [of "AppendFormat x t tf"]
  by (simp add: time_value_def valued_time_text split: if_splits)

definition caller_value :: "('f, 'v) ext \<Rightarrow> nat \<Rightarrow> string" where
  "caller_value x skip =
    [quote]
    @ (case runtime_Caller x (2 + skip) of
         None \<Rightarrow> ''???:1''
       | Some (file, line) \<Rightarrow>
           after_last_slash file @ '':'' @ AppendInt (if line < 0 then 0 else line))
    @ [quote]"

lemma caller_text_split: "caller_text x skip = key_text ''caller'' @ caller_value x skip"
  by (simp add: caller_text_def key_text_def caller_value_def)

lemma valued_caller:
  assumes "list_all string_body (caller_file x skip)"
  shows "valued (caller_value x skip)"
proof (cases "runtime_Caller x (2 + skip)")
  case None
  have "string_body ''???:1''"
    by (rule string_body_plain) (simp add: plain_def quote_def backslash_def)
  then have "valued ([quote] @ ''???:1'' @ [quote])"
    by (rule valued_literal)
  then show ?thesis
    by (simp only: caller_value_def None option.case)
next
  case (Some a)
  obtain fl line where a: "a = (fl, line)" by (cases a) auto
  have f: "string_body (after_last_slash fl)"
    using assms unfolding caller_file_def Some a by simp
  have "list_all plain ('':'' @ AppendInt (if line < 0 then 0 else line))"
    using plain_AppendInt [of "if line < 0 then 0 else line"]
    by (simp add: plain_def quote_def backslash_def)
  then have "string_body ('':'' @ AppendInt (if line < 0 then 0 else line))"
    by (rule string_body_plain)
  from string_body_append [OF f this]
  have "valued ([quote] @ (after_last_slash fl @ '':'' @ AppendInt (if line < 0 then 0 else line))
      @ [quote])"
    by (rule valued_literal)
  then show ?thesis
    by (simp only: caller_value_def Some a option.case prod.case)
qed

subsection \<open>The texts a call trusts\<close>

text \<open>
  Two kinds of text reach the buffer without passing through the escaper. Keys, the
  name of the time field and what the time formatter, the duration formatter and the
  call-site lookup return are copied between two quotes; the text of a float and raw
  JSON are copied where a value is expected.
\<close>

fun quoted_texts :: "('f, 'v) ext \<Rightarrow> string \<Rightarrow> ('f, 'v) field \<Rightarrow> string list" where
  "quoted_texts x tf (TimeF k t) = k # (if tf = [] then [] else [AppendFormat x t tf])"
| "quoted_texts x tf (TimestampF now) = []"
| "quoted_texts x tf (BoolF k b) = [k]"
| "quoted_texts x tf (BoolsF k b) = [k]"
| "quoted_texts x tf (DurF k d) = [k, Duration_String x d]"
| "quoted_texts x tf (DursF k d) = k # map (Duration_String x) d"
| "quoted_texts x tf (ErrF err) = []"
| "quoted_texts x tf (ErrsF k errs) = [k]"
| "quoted_texts x tf (Float64F k f) = [k]"
| "quoted_texts x tf (Floats64F k f) = [k]"
| "quoted_texts x tf (Floats32F k f) = [k]"
| "quoted_texts x tf (Int64F k i) = [k]"
| "quoted_texts x tf (Uint64F k i) = [k]"
| "quoted_texts x tf (Float32F k f) = [k]"
| "quoted_texts x tf (IntF k i) = [k]"
| "quoted_texts x tf (Int32F k i) = [k]"
| "quoted_texts x tf (Int16F k i) = [k]"
| "quoted_texts x tf (Int8F k i) = [k]"
| "quoted_texts x tf (Uint32F k i) = [k]"
| "quoted_texts x tf (Uint16F k i) = [k]"
| "quoted_texts x tf (Uint8F k i) = [k]"
| "quoted_texts x tf (RawJSONF k b) = [k]"
| "quoted_texts x tf (StrF k val) = [k]"
| "quoted_texts x tf (StrsF k vals) = [k]"
| "quoted_texts x tf (BytesF k val) = [k]"
| "quoted_texts x tf (InterfaceF k i) = [k]"
| "quoted_texts x tf CallerF = caller_file x 0"

fun value_texts :: "('f, 'v) ext \<Rightarrow> ('f, 'v) field \<Rightarrow> string list" where
  "value_texts x (Float64F k f) = [AppendFloat x f]"
| "value_texts x (Floats64F k f) = map (AppendFloat x) f"
| "value_texts x (Floats32F k f) = map (AppendFloat x) f"
| "value_texts x (Float32F k f) = [AppendFloat x f]"
| "value_texts x (RawJSONF k b) = [b]"
| "value_texts x f = []"

definition json_inputs ::
  "('f, 'v) ext \<Rightarrow> Logger \<Rightarrow> time_Time \<Rightarrow> ('f, 'v) field list \<Rightarrow> bool" where
  "json_inputs x l now fs =
    (list_all string_body (header_copied x l now @ concat (map (quoted_texts x (TimeFormat l)) fs))
     \<and> list_all json_value (concat (map (value_texts x) fs))
     \<and> list_all fast_time_ok
          ((if TimeFormat l = [] then [now] else []) @ concat (map (fast_times (TimeFormat l)) fs)))"

subsection \<open>Every field is a key and a value\<close>

lemma entryI:
  "string_body k \<Longrightarrow> valued v
   \<Longrightarrow> \<exists>k' v'. key_text k @ v = key_text k' @ v' \<and> string_body k' \<and> json_value v'"
  by (auto simp: json_value_valued)

lemma string_body_const:
  "string_body ''timestamp''" "string_body ''error''" "string_body ''caller''"
  "string_body ''level''" "string_body ''time''" "string_body ''message''"
  by (simp_all add: string_body_def quote_def backslash_def)

lemma valued_map: "(\<And>a. valued (g a)) \<Longrightarrow> list_all valued (map g ys)"
  by (simp add: list_all_iff)

lemma field_entry:
  assumes "list_all string_body (quoted_texts x tf f)" "list_all json_value (value_texts x f)"
    "list_all fast_time_ok (fast_times tf f)"
  shows "\<exists>k v. field_text x h tf f = key_text k @ v \<and> string_body k \<and> json_value v"
proof (cases f)
  case (TimeF k t)
  have "valued (time_value x tf t)"
    using assms TimeF by (intro valued_time_value) (simp_all split: if_splits)
  then show ?thesis
    unfolding TimeF field_text.simps using assms TimeF by (intro entryI) simp_all
next
  case (TimestampF now)
  show ?thesis
    unfolding TimestampF field_text.simps
    by (intro entryI string_body_const valued_AppendInt)
next
  case (BoolF k b)
  show ?thesis
    unfolding BoolF field_text.simps using assms BoolF
    by (intro entryI valued_AppendBool) simp
next
  case (BoolsF k b)
  show ?thesis
    unfolding BoolsF field_text.simps using assms BoolsF
    by (intro entryI valued_array valued_map valued_AppendBool) simp
next
  case (DurF k d)
  have "valued ([quote] @ Duration_String x d @ [quote])"
    using assms DurF by (intro valued_literal) simp
  then show ?thesis
    unfolding DurF field_text.simps using assms DurF by (intro entryI) simp_all
next
  case (DursF k d)
  have "list_all valued (map (\<lambda>a. [quote] @ Duration_String x a @ [quote]) d)"
    using assms DursF valued_literal by (auto simp: list_all_iff)
  then show ?thesis
    unfolding DursF field_text.simps using assms DursF by (intro entryI valued_array) simp_all
next
  case (ErrF err)
  show ?thesis
    unfolding ErrF field_text.simps by (intro entryI string_body_const valued_err)
next
  case (ErrsF k errs)
  show ?thesis
    unfolding ErrsF field_text.simps using assms ErrsF
    by (intro entryI valued_array valued_map valued_err) simp
next
  case (Float64F k v)
  show ?thesis
    unfolding Float64F field_text.simps using assms Float64F
    by (intro entryI) (simp_all add: json_value_valued)
next
  case (Floats64F k v)
  have "list_all valued (map (AppendFloat x) v)"
    using assms Floats64F by (simp add: list_all_iff json_value_valued)
  then show ?thesis
    unfolding Floats64F field_text.simps using assms Floats64F
    by (intro entryI valued_array) simp_all
next
  case (Floats32F k v)
  have "list_all valued (map (AppendFloat x) v)"
    using assms Floats32F by (simp add: list_all_iff json_value_valued)
  then show ?thesis
    unfolding Floats32F field_text.simps using assms Floats32F
    by (intro entryI valued_array) simp_all
next
  case (Int64F k i)
  show ?thesis
    unfolding Int64F field_text.simps using assms Int64F by (intro entryI valued_AppendInt) simp
next
  case (Uint64F k i)
  show ?thesis
    unfolding Uint64F field_text.simps using assms Uint64F by (intro entryI valued_AppendUint) simp
next
  case (Float32F k v)
  show ?thesis
    unfolding Float32F field_text.simps using assms Float32F
    by (intro entryI) (simp_all add: json_value_valued)
next
  case (IntF k i)
  show ?thesis
    unfolding IntF field_text.simps using assms IntF by (intro entryI valued_AppendInt) simp
next
  case (Int32F k i)
  show ?thesis
    unfolding Int32F field_text.simps using assms Int32F by (intro entryI valued_AppendInt) simp
next
  case (Int16F k i)
  show ?thesis
    unfolding Int16F field_text.simps using assms Int16F by (intro entryI valued_AppendInt) simp
next
  case (Int8F k i)
  show ?thesis
    unfolding Int8F field_text.simps using assms Int8F by (intro entryI valued_AppendInt) simp
next
  case (Uint32F k i)
  show ?thesis
    unfolding Uint32F field_text.simps using assms Uint32F by (intro entryI valued_AppendUint) simp
next
  case (Uint16F k i)
  show ?thesis
    unfolding Uint16F field_text.simps using assms Uint16F by (intro entryI valued_AppendUint) simp
next
  case (Uint8F k i)
  show ?thesis
    unfolding Uint8F field_text.simps using assms Uint8F by (intro entryI valued_AppendUint) simp
next
  case (RawJSONF k b)
  show ?thesis
    unfolding RawJSONF field_text.simps using assms RawJSONF
    by (intro entryI) (simp_all add: json_value_valued)
next
  case (StrF k val)
  show ?thesis
    unfolding StrF field_text.simps using assms StrF by (intro entryI valued_str_lit) simp
next
  case (StrsF k vals)
  show ?thesis
    unfolding StrsF field_text.simps using assms StrsF
    by (intro entryI valued_array valued_map valued_str_lit) simp
next
  case (BytesF k val)
  show ?thesis
    unfolding BytesF field_text.simps using assms BytesF by (intro entryI valued_str_lit) simp
next
  case (InterfaceF k i)
  have "valued (case json_Marshal x i of
                     Inl err \<Rightarrow> str_lit h (''marshaling error: '' @ err)
                   | Inr marshaled \<Rightarrow> str_lit h marshaled)"
    by (cases "json_Marshal x i") (simp_all add: valued_str_lit)
  then show ?thesis
    unfolding InterfaceF field_text.simps using assms InterfaceF by (intro entryI) simp_all
next
  case CallerF
  have "valued (caller_value x 0)"
    using assms CallerF by (intro valued_caller) simp
  then show ?thesis
    unfolding CallerF field_text.simps caller_text_split
    by (intro entryI string_body_const)
qed

subsection \<open>The buffer is an open object\<close>

definition open_object :: "string \<Rightarrow> bool" where
  \<comment> \<open>an object whose last member is complete and whose closing brace is missing\<close>
  "open_object b = (\<exists>m. value_done m \<and> run (JValue, []) b = (m, [InObj]))"

lemma open_object_closed: "open_object b \<Longrightarrow> json_value (b @ ''}'')"
proof -
  assume "open_object b"
  then obtain m where m: "value_done m" "run (JValue, []) b = (m, [InObj])"
    unfolding open_object_def by blast
  have "run (m, [InObj]) ''}'' = (JAfter, [])"
    using m(1) by (simp add: run_Cons step_done separators_not_num end_value_def close_ctx_def)
  then show ?thesis
    by (simp add: json_value_def run_append m(2))
qed

lemma open_object_entry:
  assumes "open_object b" "string_body k" "json_value v"
  shows "open_object (b @ key_text k @ v)"
proof -
  from assms(1) obtain m where m: "value_done m" "run (JValue, []) b = (m, [InObj])"
    unfolding open_object_def by blast
  have v: "valued v" using assms(3) by (simp add: json_value_valued)
  from valuedE [OF v, of "[InObj]"] obtain m' where
    m': "value_done m'" "run (JValue, [InObj]) v = (m', [InObj])" by blast
  have "run (JValue, []) (b @ key_text k @ v) = (m', [InObj])"
    by (simp only: run_append m(2) run_key [OF assms(2) m(1)] m'(2))
  then show ?thesis
    using m'(1) unfolding open_object_def by blast
qed

lemma open_object_fields:
  assumes "open_object b"
    "list_all string_body (concat (map (quoted_texts x tf) fs))"
    "list_all json_value (concat (map (value_texts x) fs))"
    "list_all fast_time_ok (concat (map (fast_times tf) fs))"
  shows "open_object (b @ fields_text x h tf fs)"
  using assms
proof (induction fs arbitrary: b)
  case Nil
  then show ?case by (simp add: fields_text_def)
next
  case (Cons f fs)
  from Cons.prems have "list_all string_body (quoted_texts x tf f)"
    "list_all json_value (value_texts x f)" "list_all fast_time_ok (fast_times tf f)"
    by simp_all
  from field_entry [OF this, of h] obtain k v where
    kv: "field_text x h tf f = key_text k @ v" "string_body k" "json_value v" by blast
  have "open_object (b @ field_text x h tf f)"
    unfolding kv(1) by (rule open_object_entry [OF Cons.prems(1) kv(2,3)])
  from Cons.IH [OF this] Cons.prems(2,3,4)
  have "open_object ((b @ field_text x h tf f) @ fields_text x h tf fs)" by simp
  then show ?case by (simp add: fields_text_Cons)
qed

lemma valued_level: "valued ([quote] @ level_tag level @ [quote])"
  by (rule valued_literal)
     (cases level; simp add: string_body_def quote_def backslash_def)

lemma open_object_header:
  assumes "list_all string_body (header_copied x l now)"
    "list_all fast_time_ok (if TimeFormat l = [] then [now] else [])"
  shows "open_object (header_text x l level now)"
proof -
  define name where "name = (if TimeField l = [] then ''time'' else TimeField l)"
  have n: "string_body name"
    using assms(1) by (simp add: name_def header_copied_def string_body_const)
  have t: "valued (time_value x (TimeFormat l) now)"
    using assms by (intro valued_time_value) (simp_all add: header_copied_def split: if_splits)
  from valuedE [OF t, of "[InObj]"] obtain m where
    m: "value_done m" "run (JValue, [InObj]) (time_value x (TimeFormat l) now) = (m, [InObj])"
    by blast
  have a: "run (JValue, []) [CHR ''{'', quote] = (JStr True SBody, [InObj])"
    by (simp add: run_Cons begin_value_def is_ws_def quote_def)
  have b: "run (JStr True SBody, [InObj]) [quote, CHR '':''] = (JValue, [InObj])"
    by (simp add: run_Cons is_ws_def)
  have "run (JValue, []) ([CHR ''{'', quote] @ name @ [quote, CHR '':'']
      @ time_value x (TimeFormat l) now) = (m, [InObj])"
    by (simp only: run_append a b run_string_body [OF n] m(2))
  then have o1: "open_object ([CHR ''{'', quote] @ name @ [quote, CHR '':'']
      @ time_value x (TimeFormat l) now)"
    using m(1) unfolding open_object_def by blast
  have lv: "json_value ([quote] @ level_tag level @ [quote])"
    using valued_level by (simp add: json_value_valued)
  note o2 = open_object_entry [OF o1 string_body_const(4) lv]
  have o3: "open_object (([CHR ''{'', quote] @ name @ [quote, CHR '':'']
        @ time_value x (TimeFormat l) now)
      @ key_text ''level'' @ [quote] @ level_tag level @ [quote]
      @ (if Caller l then caller_text x 1 else []))"
  proof (cases "Caller l")
    case True
    have "valued (caller_value x 1)"
      using assms(1) True by (intro valued_caller) (simp add: header_copied_def)
    then have "json_value (caller_value x 1)" by (simp add: json_value_valued)
    from open_object_entry [OF o2 string_body_const(3) this] show ?thesis
      using True by (simp add: caller_text_split)
  next
    case False
    then show ?thesis using o2 by simp
  qed
  have "header_text x l level now = ([CHR ''{'', quote] @ name @ [quote, CHR '':'']
        @ time_value x (TimeFormat l) now)
      @ key_text ''level'' @ [quote] @ level_tag level @ [quote]
      @ (if Caller l then caller_text x 1 else [])"
    by (simp add: header_text_def name_def key_text_def)
  then show ?thesis using o3 by simp
qed

lemma list_all_concat_take:
  "list_all P (concat (map g fs)) \<Longrightarrow> list_all P (concat (map g (take n fs)))"
  by (auto simp: list_all_iff dest: in_set_takeD)

lemma json_inputs_take: "json_inputs x l now fs \<Longrightarrow> json_inputs x l now (take n fs)"
  unfolding json_inputs_def list_all_append
  by (intro conjI list_all_concat_take) simp_all

lemma open_object_record:
  assumes "json_inputs x l now fs"
  shows "open_object (header_text x l level now @ fields_text x (EscapeHTML l) (TimeFormat l) fs)"
proof -
  have h: "open_object (header_text x l level now)"
    using assms by (intro open_object_header) (simp_all add: json_inputs_def)
  show ?thesis
    using assms by (intro open_object_fields h) (simp_all add: json_inputs_def)
qed

section \<open>The buffer as the prefix of an object\<close>

lemma header_text_hd: "hd (header_text x l level now @ rest) = CHR ''{''"
  by (simp add: header_text_def)

lemma list_all_concat_nth:
  "list_all P (concat (map g fs)) \<Longrightarrow> n < length fs \<Longrightarrow> list_all P (g (fs ! n))"
  by (auto simp: list_all_iff)

text \<open>
  C9 (amended). Let the level pass the gate of a logger with a writer, so that
  \<open>WithLevel\<close> returns an active event. For any chain of field-append calls on it, at
  every point of the chain the buffer begins with \<^verbatim>\<open>{\<close>, the buffer followed by
  \<^verbatim>\<open>}\<close> is a well-formed JSON value (hence an object), and the next call appends a comma,
  a quoted key, a colon and a JSON value and changes nothing else of the event. This
  holds when the texts that are copied without escaping fit their place: every key, the
  name of the time field and the texts returned by the time formatter, the duration
  formatter and the call-site lookup can stand between two quotes of a JSON string, every
  raw JSON payload and every float text is a JSON value, and the fast time formatter gets
  valid times with years 0 to 9999.
\<close>

theorem buffer_is_object_prefix:
  assumes "level_rank (Level l) \<le> level_rank level" and "Writer l = Some wr"
    and "json_inputs x l now fs"
  shows "\<exists>e0 w0. WithLevel x l level now w = Inr (Some e0, w0)
    \<and> (\<forall>n \<le> length fs. \<exists>e.
      calls x (Some e0) (take n fs) = Some e
      \<and> hd (buf e) = CHR ''{''
      \<and> json_value (buf e @ ''}'')
      \<and> (n < length fs \<longrightarrow>
           (\<exists>k v. string_body k \<and> json_value v
              \<and> call x (Some e) (fs ! n)
                  = Some (e\<lparr>buf := buf e @ [CHR '','', quote] @ k @ [quote, CHR '':''] @ v\<rparr>))))"
proof -
  define e0 where "e0 = \<lparr>buf = header_text x l level now, fatal = (level = FatalLevel),
      escapeHTML = EscapeHTML l, timeFormat = TimeFormat l, write' = wr\<rparr>"
  have g: "\<not> level_rank level < level_rank (Level l)" using assms(1) by simp
  have r: "WithLevel x l level now w = Inr (Some e0, snd (epool_Get w))"
    by (simp add: WithLevel_active [OF g assms(2)] e0_def)
  have p: "\<exists>e. calls x (Some e0) (take n fs) = Some e
      \<and> hd (buf e) = CHR ''{''
      \<and> json_value (buf e @ ''}'')
      \<and> (n < length fs \<longrightarrow>
           (\<exists>k v. string_body k \<and> json_value v
              \<and> call x (Some e) (fs ! n)
                  = Some (e\<lparr>buf := buf e @ [CHR '','', quote] @ k @ [quote, CHR '':''] @ v\<rparr>)))"
    if n: "n \<le> length fs" for n
  proof -
    define e where "e = \<lparr>buf = header_text x l level now
          @ fields_text x (EscapeHTML l) (TimeFormat l) (take n fs),
        fatal = (level = FatalLevel), escapeHTML = EscapeHTML l, timeFormat = TimeFormat l,
        write' = wr\<rparr>"
    have c: "calls x (Some e0) (take n fs) = Some e"
      by (simp add: calls_appends e0_def e_def)
    have h: "hd (buf e) = CHR ''{''"
      by (simp add: e_def header_text_hd)
    have "open_object (buf e)"
      using open_object_record [OF json_inputs_take [OF assms(3)], of level n] by (simp add: e_def)
    then have j: "json_value (buf e @ ''}'')" by (rule open_object_closed)
    have s: "\<exists>k v. string_body k \<and> json_value v
                \<and> call x (Some e) (fs ! n)
                    = Some (e\<lparr>buf := buf e @ [CHR '','', quote] @ k @ [quote, CHR '':''] @ v\<rparr>)"
      if less: "n < length fs"
    proof -
      have q: "list_all string_body (quoted_texts x (TimeFormat l) (fs ! n))"
        "list_all json_value (value_texts x (fs ! n))"
        "list_all fast_time_ok (fast_times (TimeFormat l) (fs ! n))"
        using assms(3) less by (simp_all add: json_inputs_def list_all_concat_nth)
      from field_entry [OF q, of "EscapeHTML l"] obtain k v where
        kv: "field_text x (EscapeHTML l) (TimeFormat l) (fs ! n) = key_text k @ v"
          "string_body k" "json_value v" by blast
      have "call x (Some e) (fs ! n)
          = Some (e\<lparr>buf := buf e @ [CHR '','', quote] @ k @ [quote, CHR '':''] @ v\<rparr>)"
        by (simp add: call_appends) (simp add: e_def kv(1) key_text_def)
      then show ?thesis using kv(2,3) by blast
    qed
    from c h j s show ?thesis by blast
  qed
  from r p show ?thesis by blast
qed

definition example_fields :: "(nat, string option) field list" where
  \<open>example_fields = [StrF ''user'' ''ann'', RawJSONF ''tags'' ''[1, 2]'', Float64F ''load'' 3]\<close>

lemmas recogniser_defs =
  json_value_def run_def string_body_def begin_value_def end_value_def close_ctx_def
  is_ws_def is_digit_def is_exp_def num_char_def is_hex_def quote_def backslash_def

theorem buffer_is_object_prefix_witness:
  \<open>json_inputs example_ext DefaultLogger example_time example_fields
   \<and> WithLevel example_ext DefaultLogger InfoLevel example_time empty_world
     = Inr (Some example_active, empty_world)
   \<and> map_option buf (calls example_ext (Some example_active) example_fields)
     = Some ''{"time":"2024-02-29T23:59:58.123Z","level":"info","user":"ann","tags":[1, 2],"load":3.5''
   \<and> json_value
       ''{"time":"2024-02-29T23:59:58.123Z","level":"info","user":"ann","tags":[1, 2],"load":3.5}''\<close>
proof -
  have g: "level_rank (Level DefaultLogger) \<le> level_rank InfoLevel" "Writer DefaultLogger = Some 0"
    by (simp_all add: DefaultLogger_def)
  have f: "AppendFloat example_ext 3 = ''3.5''"
    by (simp add: example_ext_def AppendUint_def decimal.simps [of 3] digit_char_def)
  have i: "json_inputs example_ext DefaultLogger example_time example_fields"
    by (simp add: json_inputs_def example_fields_def header_copied_def DefaultLogger_def f
        fast_time_ok_def valid_time_def example_time_def recogniser_defs)
  have e: \<open>esc ''ann'' False = ''ann''\<close>
    by (simp add: esc_Cons_ascii htmlSafeSet_def)
  have b: \<open>map_option buf (calls example_ext (Some example_active) example_fields)
     = Some ''{"time":"2024-02-29T23:59:58.123Z","level":"info","user":"ann","tags":[1, 2],"load":3.5''\<close>
    by (simp add: calls_appends fields_text_def example_fields_def key_text_def str_lit_def f
        quote_def example_active_def e)
  from buffer_is_object_prefix [OF g i, of empty_world]
  obtain e0 w0 where t:
    "WithLevel example_ext DefaultLogger InfoLevel example_time empty_world = Inr (Some e0, w0)"
    "\<forall>n \<le> length example_fields. \<exists>e.
        calls example_ext (Some e0) (take n example_fields) = Some e
        \<and> json_value (buf e @ ''}'')"
    by blast
  have e0: "e0 = example_active" using t(1) WithLevel_example(1) by simp
  from t(2) have "\<exists>e. calls example_ext (Some example_active)
        (take (length example_fields) example_fields) = Some e \<and> json_value (buf e @ ''}'')"
    unfolding e0 by blast
  then obtain ev where ev: "calls example_ext (Some example_active) example_fields = Some ev"
    "json_value (buf ev @ ''}'')"
    by auto
  from b ev(1) have \<open>buf ev
      = ''{"time":"2024-02-29T23:59:58.123Z","level":"info","user":"ann","tags":[1, 2],"load":3.5''\<close>
    by simp
  with ev(2) have \<open>json_value
       ''{"time":"2024-02-29T23:59:58.123Z","level":"info","user":"ann","tags":[1, 2],"load":3.5}''\<close>
    by simp
  with i b WithLevel_example(1) show ?thesis by blast
qed

text \<open>
  C9 as stated fails for a key that has a quote: the key is copied between two quotes
  as it is, and the buffer followed by the closing brace is not a JSON value.
\<close>

theorem key_with_quote_breaks_object:
  \<open>WithLevel example_ext DefaultLogger InfoLevel example_time empty_world
     = Inr (Some example_active, empty_world)
   \<and> map_option buf (calls example_ext (Some example_active) [StrF ''a"b'' ''v''])
     = Some ''{"time":"2024-02-29T23:59:58.123Z","level":"info","a"b":"v"''
   \<and> \<not> json_value ''{"time":"2024-02-29T23:59:58.123Z","level":"info","a"b":"v"}''\<close>
proof -
  have e: \<open>esc ''v'' False = ''v''\<close>
    by (simp add: esc_Cons_ascii htmlSafeSet_def)
  have b: \<open>map_option buf (calls example_ext (Some example_active) [StrF ''a"b'' ''v''])
     = Some ''{"time":"2024-02-29T23:59:58.123Z","level":"info","a"b":"v"''\<close>
    by (simp add: calls_appends fields_text_def key_text_def str_lit_def quote_def
        example_active_def e)
  have n: \<open>\<not> json_value ''{"time":"2024-02-29T23:59:58.123Z","level":"info","a"b":"v"}''\<close>
    by (simp add: recogniser_defs)
  from WithLevel_example(1) b n show ?thesis by blast
qed

section \<open>A failing marshaler\<close>

lemma valid_utf8_error_text: "valid_utf8 m \<Longrightarrow> valid_utf8 (''marshaling error: '' @ m)"
  by (simp add: valid_utf8_ascii)

text \<open>
  C7. When the marshaler fails with the message \<open>m\<close>, \<open>Interface\<close> still returns the
  active event. It has appended the key and what \<^verbatim>\<open>Event.string\<close> writes for
  \<^verbatim>\<open>marshaling error: \<close> followed by \<open>m\<close>: a quote, the escaped text, a quote. This
  value is a well-formed JSON string literal, and for a message that is valid UTF-8 it
  decodes to exactly that text. Every later chain of calls appends its fields after it,
  and \<open>Send\<close> writes the whole line: what was in the buffer, this field, the later
  fields, the closing brace and the newline.
\<close>

theorem Interface_failure:
  assumes "json_Marshal x i = Inl m"
  shows "Interface x (Some e) k i =
     Some (e\<lparr>buf := buf e @ [CHR '','', quote] @ k @ [quote, CHR '':'']
                 @ [quote] @ esc (''marshaling error: '' @ m) (escapeHTML e) @ [quote]\<rparr>)
    \<and> Interface x (Some e) k i
       = Some (string (key e (CHR '','') k) (''marshaling error: '' @ m) (escapeHTML e))
    \<and> json_value ([quote] @ esc (''marshaling error: '' @ m) (escapeHTML e) @ [quote])
    \<and> (valid_utf8 m \<longrightarrow>
         json_unquote ([quote] @ esc (''marshaling error: '' @ m) (escapeHTML e) @ [quote])
           = Some (''marshaling error: '' @ m))
    \<and> calls x (Interface x (Some e) k i) fs =
     Some (e\<lparr>buf := buf e @ [CHR '','', quote] @ k @ [quote, CHR '':'']
                 @ [quote] @ esc (''marshaling error: '' @ m) (escapeHTML e) @ [quote]
                 @ fields_text x (escapeHTML e) (timeFormat e) fs\<rparr>)
    \<and> sink (Send x (calls x (Interface x (Some e) k i) fs) w) =
       sink w @ [(write' e, buf e @ [CHR '','', quote] @ k @ [quote, CHR '':'']
                 @ [quote] @ esc (''marshaling error: '' @ m) (escapeHTML e) @ [quote]
                 @ fields_text x (escapeHTML e) (timeFormat e) fs @ [CHR ''}'', CHR 0x0A])]
       @ (if fatal e then [(write' e, stacks x False), (write' e, stacks x True)] else [])"
proof -
  let ?lit = "[quote] @ esc (''marshaling error: '' @ m) (escapeHTML e) @ [quote]"
  let ?v = "[CHR '','', quote] @ k @ [quote, CHR '':''] @ ?lit"
  have a: "Interface x (Some e) k i = Some (e\<lparr>buf := buf e @ ?v\<rparr>)"
    using assms call_appends [of x e "InterfaceF k i"]
    by (simp add: key_text_def str_lit_def)
  have a': "Interface x (Some e) k i
       = Some (string (key e (CHR '','') k) (''marshaling error: '' @ m) (escapeHTML e))"
    unfolding a by (simp add: key_eq string_esc)
  have j: "json_value ?lit"
    using valued_str_lit [of "escapeHTML e" "''marshaling error: '' @ m"]
    by (simp add: json_value_valued str_lit_def)
  have u: "valid_utf8 m \<longrightarrow> json_unquote ?lit = Some (''marshaling error: '' @ m)"
    unfolding json_unquote_quoted using unquote_esc [OF valid_utf8_error_text] by blast
  have b: "calls x (Interface x (Some e) k i) fs
     = Some (e\<lparr>buf := buf e @ ?v @ fields_text x (escapeHTML e) (timeFormat e) fs\<rparr>)"
    by (simp add: a calls_appends)
  have c: "sink (Send x (calls x (Interface x (Some e) k i) fs) w) =
       sink w @ [(write' e, buf e @ ?v @ fields_text x (escapeHTML e) (timeFormat e) fs
                   @ [CHR ''}'', CHR 0x0A])]
       @ (if fatal e then [(write' e, stacks x False), (write' e, stacks x True)] else [])"
    by (simp add: b Send_eq line_of_def)
  from a a' j u b c show ?thesis by simp
qed

definition failing_ext :: "(nat, string option) ext" where
  \<comment> \<open>collaborators whose marshaler rejects every value, with a message that has quotes\<close>
  \<open>failing_ext = example_ext\<lparr>json_Marshal := (\<lambda>v. Inl ''bad "x"'')\<rparr>\<close>

theorem Interface_failure_witness:
  \<open>Interface failing_ext (Some example_event) ''ch'' None
     = Some (example_event\<lparr>buf :=
          ''{"time":"T","level":"info","ch":"marshaling error: bad '' @ [backslash] @ ''"x''
          @ [backslash] @ ''""''\<rparr>)
   \<and> json_value (''"marshaling error: bad '' @ [backslash] @ ''"x'' @ [backslash] @ ''""'')
   \<and> json_unquote (''"marshaling error: bad '' @ [backslash] @ ''"x'' @ [backslash] @ ''""'')
     = Some ''marshaling error: bad "x"''
   \<and> sink (Send failing_ext
        (calls failing_ext (Interface failing_ext (Some example_event) ''ch'' None) [BoolF ''ok'' True])
        \<lparr>sink = [], epool = [], exited = None\<rparr>)
     = [(1, ''{"time":"T","level":"info","ch":"marshaling error: bad '' @ [backslash] @ ''"x''
            @ [backslash] @ ''"","ok":true}'' @ [CHR 0x0A])]\<close>
proof -
  have m: \<open>json_Marshal failing_ext None = Inl ''bad "x"''\<close>
    by (simp add: failing_ext_def)
  have e: "escapeHTML example_event = False" "fatal example_event = False"
    "write' example_event = 1" "timeFormat example_event = []"
    \<open>buf example_event = ''{"time":"T","level":"info"''\<close>
    by (simp_all add: example_event_def)
  have a: \<open>esc (''marshaling error: '' @ ''bad "x"'') False
      = ''marshaling error: bad '' @ [backslash] @ ''"x'' @ [backslash] @ ''"''\<close>
    by (simp add: esc_Cons_ascii htmlSafeSet_def safeSet_def escape_ascii_def quote_def
        backslash_def)
  have v: \<open>valid_utf8 ''bad "x"''\<close>
    by (simp add: valid_utf8_ascii valid_utf8_Nil)
  note t = Interface_failure [OF m, of example_event "''ch''" "[BoolF ''ok'' True]"
      "\<lparr>sink = [], epool = [], exited = None\<rparr>"]
  have c1: \<open>Interface failing_ext (Some example_event) ''ch'' None
     = Some (example_event\<lparr>buf :=
          ''{"time":"T","level":"info","ch":"marshaling error: bad '' @ [backslash] @ ''"x''
          @ [backslash] @ ''""''\<rparr>)\<close>
    using t [THEN conjunct1] unfolding e a by (simp add: quote_def)
  have c2: \<open>json_value (''"marshaling error: bad '' @ [backslash] @ ''"x'' @ [backslash] @ ''""'')\<close>
    using t [THEN conjunct2, THEN conjunct2, THEN conjunct1] unfolding e a
    by (simp add: quote_def)
  have c3: \<open>json_unquote (''"marshaling error: bad '' @ [backslash] @ ''"x'' @ [backslash] @ ''""'')
     = Some ''marshaling error: bad "x"''\<close>
    using t [THEN conjunct2, THEN conjunct2, THEN conjunct2, THEN conjunct1] v unfolding e a
    by (simp add: quote_def)
  have c4: \<open>sink (Send failing_ext
        (calls failing_ext (Interface failing_ext (Some example_event) ''ch'' None) [BoolF ''ok'' True])
        \<lparr>sink = [], epool = [], exited = None\<rparr>)
     = [(1, ''{"time":"T","level":"info","ch":"marshaling error: bad '' @ [backslash] @ ''"x''
            @ [backslash] @ ''"","ok":true}'' @ [CHR 0x0A])]\<close>
    using t [THEN conjunct2, THEN conjunct2, THEN conjunct2, THEN conjunct2, THEN conjunct2]
    unfolding e a
    by (simp add: fields_text_def key_text_def AppendBool_def quote_def)
  from c1 c2 c3 c4 show ?thesis by blast
qed

end
